theory Spec2Isabelle
  imports Complex_Main "HOL-Library.Multiset"
begin

section \<open>Values shared by the browser scripts and the server\<close>

text \<open>
  JavaScript numbers are modelled as rationals. Every number the ranking code
  computes (the weights 1..4, the energy factors 0.5, 1, 1.5, 2, the urgency
  factors 1, 2, 3, their products, and differences of millisecond timestamps) is
  exactly representable as a double, so no rounding is lost. Points in time are
  milliseconds since the epoch; a field holding a date string is modelled by the
  instant it parses to.
\<close>

type_synonym number = rat
type_synonym instant = int

text \<open>
  What an arithmetic operator returns: a number or \<open>NaN\<close>. No operation of the
  modelled code divides by a variable or leaves the exact range, so infinities do
  not arise.
\<close>

datatype jsnum = Num number | NaN

definition js_times :: "jsnum \<Rightarrow> jsnum \<Rightarrow> jsnum" where
  "js_times x y = (case (x, y) of (Num a, Num b) \<Rightarrow> Num (a * b) | _ \<Rightarrow> NaN)"

definition js_minus :: "jsnum \<Rightarrow> jsnum \<Rightarrow> jsnum" where
  "js_minus x y = (case (x, y) of (Num a, Num b) \<Rightarrow> Num (a - b) | _ \<Rightarrow> NaN)"

text \<open>
  A value as a property such as \<open>completed\<close> can hold it. \<open>Undefined\<close> is also what
  reading a missing property gives. An object, array or function is modelled by a
  name that stands for its identity: two such values are the same object exactly
  when the names are equal. With that, equality of this type is the strict
  equality \<open>===\<close> (no property of the modelled data holds \<open>NaN\<close>), and \<open>truthy\<close>
  is the conversion every \<open>if\<close>, \<open>!\<close>, \<open>||\<close>, \<open>?:\<close> and \<open>filter\<close> applies.
\<close>

datatype jsval = Undefined | Null | Boolean bool | Number number | String string | Object string

fun truthy :: "jsval \<Rightarrow> bool" where
  "truthy Undefined = False"
| "truthy Null = False"
| "truthy (Boolean b) = b"
| "truthy (Number n) = (n \<noteq> 0)"
| "truthy (String s) = (s \<noteq> [])"
| "truthy (Object name) = True"

text \<open>
  A task as the scripts and the server read it. For \<open>completed\<close> the value itself
  is kept, since \<open>sortTasks\<close> compares it with \<open>!==\<close>. For the other properties
  \<open>None\<close> stands for a property that is absent or \<open>null\<close>; for \<open>deadline\<close> also for
  any other falsy value and for text that is not a date (the deadline tests of the
  source treat all of these alike: \<open>new Date\<close> of such text is invalid, every
  comparison with its time is false and every difference is \<open>NaN\<close>). \<open>priority\<close>
  and \<open>energyRequired\<close> are used as property keys only and are modelled by the key
  they convert to.
\<close>

record task =
  id_task :: string
  title :: "string option"
  description :: "string option"
  completed :: jsval
  completedAt :: "instant option"
  createdAt :: "instant option"
  deadline :: "instant option"
  priority :: "string option"
  category :: "string option"
  duration :: "int option"
  energyRequired :: "string option"

subsection \<open>Reading a table\<close>

text \<open>
  The tables of the source are object literals with number values. \<open>table[key]\<close>
  finds an own property of the literal, or else a member the literal inherits from
  \<open>Object.prototype\<close>, or else nothing. The inherited members are functions, and
  \<open>__proto__\<close> is the prototype object itself; each is a different object. A key
  that is missing (\<open>None\<close>) is the property name \<open>undefined\<close>, which no table and no
  prototype has.
\<close>

definition objectPrototype :: "string list" where
  "objectPrototype =
     [''constructor'', ''__defineGetter__'', ''__defineSetter__'', ''hasOwnProperty'',
      ''__lookupGetter__'', ''__lookupSetter__'', ''isPrototypeOf'', ''propertyIsEnumerable'',
      ''toString'', ''valueOf'', ''__proto__'', ''toLocaleString'']"

datatype property = Own number | Inherited string | Absent

definition lookup :: "(string \<times> number) list \<Rightarrow> string option \<Rightarrow> property" where
  "lookup table key =
     (case key of
        None \<Rightarrow> Absent
      | Some k \<Rightarrow>
          (case map_of table k of
             Some v \<Rightarrow> Own v
           | None \<Rightarrow> if k \<in> set objectPrototype then Inherited k else Absent))"

text \<open>
  \<open>v || d\<close> for a value read from a table: a missing value and zero are falsy, a
  function or object is truthy and stays. \<open>to_number\<close> is the conversion the
  arithmetic operators apply: a function or object of the prototype becomes
  \<open>NaN\<close>, as does \<open>undefined\<close>.
\<close>

definition or_default :: "property \<Rightarrow> number \<Rightarrow> property" where
  "or_default v d =
     (case v of Own x \<Rightarrow> if x = 0 then Own d else Own x | Inherited k \<Rightarrow> Inherited k | Absent \<Rightarrow> Own d)"

definition to_number :: "property \<Rightarrow> jsnum" where
  "to_number v = (case v of Own x \<Rightarrow> Num x | Inherited k \<Rightarrow> NaN | Absent \<Rightarrow> NaN)"

subsection \<open>Array.prototype.sort\<close>

text \<open>
  \<open>sort(compareFn)\<close> as the V8 runtime (Chrome, Node.js) carries it out on an array
  of fewer than 64 elements: a comparator result that is \<open>NaN\<close> counts as 0; the
  longest run at the start of the array that is ascending, or strictly descending
  and then reversed, is taken as sorted; every later element is put into the
  sorted part at the place a binary search finds. Arrays of 64 elements and above
  are cut into several such runs that are merged, which is not modelled. When the
  comparator is a total preorder on the elements, the language fixes the result
  for every runtime and every length (the sort is stable), and this model computes
  it; for any other comparator the order is left to the runtime, and results about
  such lists are results about the runtime named here.
\<close>

definition sortCompare :: "('a \<Rightarrow> 'a \<Rightarrow> jsnum) \<Rightarrow> 'a \<Rightarrow> 'a \<Rightarrow> number" where
  "sortCompare cmp x y = (case cmp x y of NaN \<Rightarrow> 0 | Num v \<Rightarrow> v)"

fun extendRun :: "('a \<Rightarrow> 'a \<Rightarrow> number) \<Rightarrow> bool \<Rightarrow> 'a \<Rightarrow> 'a list \<Rightarrow> 'a list \<times> 'a list" where
  "extendRun c isDescending previousElement [] = ([], [])"
| "extendRun c isDescending previousElement (currentElement # following) =
     (let order = c currentElement previousElement
      in if (if isDescending then order \<ge> 0 else order < 0) then ([], currentElement # following)
         else (case extendRun c isDescending currentElement following of
                 (run, rest) \<Rightarrow> (currentElement # run, rest)))"

text \<open>The run at the start of the array, already in ascending order, and the elements behind it.\<close>

fun countAndMakeRun :: "('a \<Rightarrow> 'a \<Rightarrow> number) \<Rightarrow> 'a list \<Rightarrow> 'a list \<times> 'a list" where
  "countAndMakeRun c [] = ([], [])"
| "countAndMakeRun c [x] = ([x], [])"
| "countAndMakeRun c (elementHigh # elementLow # following) =
     (let isDescending = (c elementLow elementHigh < 0)
      in case extendRun c isDescending elementLow following of
           (run, rest) \<Rightarrow>
             (if isDescending then rev (elementHigh # elementLow # run)
              else elementHigh # elementLow # run, rest))"

function binarySearch :: "('a \<Rightarrow> 'a \<Rightarrow> number) \<Rightarrow> 'a \<Rightarrow> 'a list \<Rightarrow> nat \<Rightarrow> nat \<Rightarrow> nat" where
  "binarySearch c pivot xs left right =
     (if left < right then
        (let mid = left + (right - left) div 2
         in if c pivot (xs ! mid) < 0 then binarySearch c pivot xs left mid
            else binarySearch c pivot xs (mid + 1) right)
      else left)"
  by pat_completeness auto
termination
  by (relation "measure (\<lambda>(c, pivot, xs, left, right). right - left)") auto

declare binarySearch.simps [simp del]

definition binaryInsert :: "('a \<Rightarrow> 'a \<Rightarrow> number) \<Rightarrow> 'a list \<Rightarrow> 'a \<Rightarrow> 'a list" where
  "binaryInsert c xs pivot =
     (let left = binarySearch c pivot xs 0 (length xs) in take left xs @ pivot # drop left xs)"

definition array_sort :: "('a \<Rightarrow> 'a \<Rightarrow> jsnum) \<Rightarrow> 'a list \<Rightarrow> 'a list" where
  "array_sort cmp xs =
     (case countAndMakeRun (sortCompare cmp) xs of
        (run, rest) \<Rightarrow> foldl (binaryInsert (sortCompare cmp)) run rest)"

text \<open>
  Two notions for the facts about the sort: a list is ascending when no element is
  smaller than the one before it, as the comparator sees the two; a comparator is
  consistent with a relation \<open>le\<close> on a set when \<open>le\<close> is a total preorder there
  and the comparator is negative exactly for the pairs that \<open>le\<close> orders strictly.
\<close>

definition ascending :: "('a \<Rightarrow> 'a \<Rightarrow> number) \<Rightarrow> 'a list \<Rightarrow> bool" where
  "ascending c xs \<longleftrightarrow> successively (\<lambda>previous next. c next previous \<ge> 0) xs"

definition consistent_on :: "'a set \<Rightarrow> ('a \<Rightarrow> 'a \<Rightarrow> number) \<Rightarrow> ('a \<Rightarrow> 'a \<Rightarrow> bool) \<Rightarrow> bool" where
  "consistent_on S c le \<longleftrightarrow>
     (\<forall>a \<in> S. \<forall>b \<in> S. (c a b < 0) = (\<not> le b a))
     \<and> (\<forall>a \<in> S. \<forall>b \<in> S. le a b \<or> le b a)
     \<and> (\<forall>a \<in> S. \<forall>b \<in> S. \<forall>d \<in> S. le a b \<longrightarrow> le b d \<longrightarrow> le a d)"

section \<open>AIService (scripts/services/ai.js)\<close>

definition priorityWeights :: "(string \<times> number) list" where
  "priorityWeights = [(''urgent'', 4), (''high'', 3), (''medium'', 2), (''low'', 1)]"

definition energyMap :: "(string \<times> (string \<times> number) list) list" where
  "energyMap =
    [(''high'', [(''high'', 2), (''medium'', 1), (''low'', 1 / 2)]),
     (''medium'', [(''high'', 3 / 2), (''medium'', 2), (''low'', 1)]),
     (''low'', [(''high'', 1 / 2), (''medium'', 1), (''low'', 2)])]"

text \<open>
  \<open>energyMap[userEnergy]?.[task.energyRequired] || 1\<close>, given as the number the
  product in \<open>calculateScore\<close> reads from it. A user energy that the table does not
  have and that names no inherited member finds \<open>undefined\<close>, where \<open>?.\<close> stops. A
  user energy that names an inherited member finds a function or object of the
  runtime; what its property \<open>task.energyRequired\<close> holds is not written in the
  source, and the parameter \<open>builtin\<close> gives the number the expression then comes
  to (reading a property whose getter throws, such as \<open>caller\<close> of a built-in
  function, is outside this value model).
\<close>

definition getEnergyMatchScore ::
  "(string \<Rightarrow> string option \<Rightarrow> jsnum) \<Rightarrow> task \<Rightarrow> string option \<Rightarrow> jsnum" where
  "getEnergyMatchScore builtin t userEnergy =
     (case userEnergy of
        None \<Rightarrow> Num 1
      | Some u \<Rightarrow>
          (case map_of energyMap u of
             Some row \<Rightarrow> to_number (or_default (lookup row (energyRequired t)) 1)
           | None \<Rightarrow> if u \<in> set objectPrototype then builtin u (energyRequired t) else Num 1))"

definition getDeadlineUrgencyScore :: "task \<Rightarrow> instant \<Rightarrow> number" where
  "getDeadlineUrgencyScore t currentTime =
     (case deadline t of
        None \<Rightarrow> 1
      | Some d \<Rightarrow>
          (let hoursDiff = (of_int (d - currentTime) :: number) / (1000 * 60 * 60)
           in if hoursDiff < 2 then 3 else if hoursDiff < 24 then 2 else 1))"

definition priorityScore :: "task \<Rightarrow> property" where
  "priorityScore t = or_default (lookup priorityWeights (priority t)) 2"

definition calculateScore ::
  "(string \<Rightarrow> string option \<Rightarrow> jsnum) \<Rightarrow> instant \<Rightarrow> string option \<Rightarrow> task \<Rightarrow> jsnum" where
  "calculateScore builtin currentTime userEnergy t =
     js_times (js_times (to_number (priorityScore t)) (getEnergyMatchScore builtin t userEnergy))
              (Num (getDeadlineUrgencyScore t currentTime))"

definition suggestTaskReorder ::
  "(string \<Rightarrow> string option \<Rightarrow> jsnum) \<Rightarrow> task list \<Rightarrow> instant \<Rightarrow> string option \<Rightarrow> task list" where
  "suggestTaskReorder builtin tasks currentTime userEnergy =
     array_sort (\<lambda>a b. js_minus (calculateScore builtin currentTime userEnergy b)
                                (calculateScore builtin currentTime userEnergy a)) tasks"


section \<open>Dashboard and TaskManager (browser scripts)\<close>

text \<open>The local wall-clock hour of an instant; \<open>tz\<close> is the zone offset in milliseconds.\<close>

definition getHours :: "int \<Rightarrow> instant \<Rightarrow> int" where
  "getHours tz t = ((t + tz) div 3600000) mod 24"

text \<open>The local calendar day of an instant: what \<open>toDateString()\<close> distinguishes.\<close>

definition toDateString :: "int \<Rightarrow> instant \<Rightarrow> int" where
  "toDateString tz t = (t + tz) div 86400000"

text \<open>\<open>toLowerCase\<close> on the letters A to Z; every other character stays.\<close>

definition toLowerCase :: "string \<Rightarrow> string" where
  "toLowerCase s =
     map (\<lambda>c. case map_of (zip ''ABCDEFGHIJKLMNOPQRSTUVWXYZ'' ''abcdefghijklmnopqrstuvwxyz'') c of
                 Some l \<Rightarrow> l
               | None \<Rightarrow> c) s"

definition calculateEnergyLevel :: "int \<Rightarrow> string \<times> int" where
  "calculateEnergyLevel hour =
     (if hour \<ge> 9 \<and> hour \<le> 11 then (''High'', 85)
      else if hour \<ge> 14 \<and> hour \<le> 16 then (''Medium'', 65)
      else if hour \<ge> 20 \<or> hour \<le> 6 then (''Low'', 30)
      else (''Medium'', 50))"

text \<open>
  \<open>optimizeWithAI\<close> replaces the dashboard's task list: nothing happens on an empty
  list; otherwise the incomplete tasks are handed to the AI service and the
  completed ones are appended behind its answer.
\<close>

definition optimizeWithAI ::
  "(string \<Rightarrow> string option \<Rightarrow> jsnum) \<Rightarrow> int \<Rightarrow> instant \<Rightarrow> task list \<Rightarrow> task list" where
  "optimizeWithAI builtin tz currentTime tasks =
     (if length tasks = 0 then tasks
      else
        let activeTasks = filter (\<lambda>t. \<not> truthy (completed t)) tasks;
            userEnergy = toLowerCase (fst (calculateEnergyLevel (getHours tz currentTime)));
            optimizedTasks = suggestTaskReorder builtin activeTasks currentTime (Some userEnergy)
        in optimizedTasks @ filter (\<lambda>t. truthy (completed t)) tasks)"

definition priorityOrder :: "(string \<times> number) list" where
  "priorityOrder = [(''urgent'', 4), (''high'', 3), (''medium'', 2), (''low'', 1)]"

text \<open>
  The comparator that \<open>sortTasks\<close> hands to \<open>sort\<close>. Both \<open>!==\<close> tests compare
  values as they are: a missing \<open>completed\<close> differs from \<open>false\<close>, and a priority
  that names an inherited member is a function, which differs from every number
  and makes the difference \<open>NaN\<close>.
\<close>

definition compareTasks :: "task \<Rightarrow> task \<Rightarrow> jsnum" where
  "compareTasks a b =
     (if completed a \<noteq> completed b then (if truthy (completed a) then Num 1 else Num (- 1))
      else
        let aPriority = or_default (lookup priorityOrder (priority a)) 2;
            bPriority = or_default (lookup priorityOrder (priority b)) 2
        in if aPriority \<noteq> bPriority then js_minus (to_number bPriority) (to_number aPriority)
           else (case (deadline a, deadline b) of
                   (Some da, Some db) \<Rightarrow> Num (of_int (da - db))
                 | _ \<Rightarrow> Num 0))"

definition sortTasks :: "task list \<Rightarrow> task list" where
  "sortTasks tasks = array_sort compareTasks tasks"

subsection \<open>Request bodies\<close>

text \<open>
  A JSON body that is spread over a task. For each property the outer \<open>None\<close>
  means that the body does not mention it; \<open>Some v\<close> carries the value sent.
\<close>

record task_patch =
  p_id :: "string option"
  p_title :: "string option option"
  p_description :: "string option option"
  p_completed :: "jsval option"
  p_completedAt :: "instant option option"
  p_createdAt :: "instant option option"
  p_deadline :: "instant option option"
  p_priority :: "string option option"
  p_category :: "string option option"
  p_duration :: "int option option"
  p_energyRequired :: "string option option"

definition pick :: "'a option \<Rightarrow> 'a \<Rightarrow> 'a" where
  "pick sent old = (case sent of None \<Rightarrow> old | Some v \<Rightarrow> v)"

text \<open>\<open>{ ...t, ...p }\<close> and \<open>Object.assign(t, p)\<close>.\<close>

definition assign :: "task \<Rightarrow> task_patch \<Rightarrow> task" where
  "assign t p =
     \<lparr> id_task = pick (p_id p) (id_task t),
       title = pick (p_title p) (title t),
       description = pick (p_description p) (description t),
       completed = pick (p_completed p) (completed t),
       completedAt = pick (p_completedAt p) (completedAt t),
       createdAt = pick (p_createdAt p) (createdAt t),
       deadline = pick (p_deadline p) (deadline t),
       priority = pick (p_priority p) (priority t),
       category = pick (p_category p) (category t),
       duration = pick (p_duration p) (duration t),
       energyRequired = pick (p_energyRequired p) (energyRequired t) \<rparr>"

definition no_updates :: task_patch where
  "no_updates =
     \<lparr> p_id = None, p_title = None, p_description = None, p_completed = None,
       p_completedAt = None, p_createdAt = None, p_deadline = None, p_priority = None,
       p_category = None, p_duration = None, p_energyRequired = None \<rparr>"

text \<open>The object \<open>{ id: generateUserId() }\<close> before anything is spread over it.\<close>

definition only_id :: "string \<Rightarrow> task" where
  "only_id i =
     \<lparr> id_task = i, title = None, description = None, completed = Undefined,
       completedAt = None, createdAt = None, deadline = None, priority = None,
       category = None, duration = None, energyRequired = None \<rparr>"

text \<open>The \<open>updates\<close> object that \<open>toggleComplete\<close> builds from the task it found.\<close>

definition toggle_updates :: "instant \<Rightarrow> task \<Rightarrow> task_patch" where
  "toggle_updates now t =
     no_updates \<lparr> p_completed := Some (Boolean (\<not> truthy (completed t))),
                  p_completedAt := Some (if \<not> truthy (completed t) then Some now else None) \<rparr>"


section \<open>The document store (server.js)\<close>

datatype json =
  JNull | JBool bool | JNum number | JStr string | JArr "json list" | JObj "(string \<times> json) list"

record chat =
  id_chat :: "string option"
  message :: "string option"
  response :: "string option"
  timestamp :: instant

text \<open>
  What a read of the store returns: the two array-valued resources carry typed
  entries, every other resource is plain JSON. \<open>RuntimeObject\<close> is a function or
  object of the runtime, named by the member of \<open>Object.prototype\<close> it is; no file
  holds one.
\<close>

datatype doc = TaskDoc "task list" | ChatDoc "chat list" | JsonDoc json | RuntimeObject string

text \<open>
  What \<open>fs.readFile\<close> followed by \<open>JSON.parse\<close> meets at a path: no file, a file
  the system call fails on with some error code, a file whose text does not parse,
  or a file holding a document.
\<close>

datatype file_state = Missing | Unreadable string | Corrupt | Holds doc

datatype js_error = SystemError string | SyntaxError | TypeError

text \<open>
  The disk under \<open>Zyntrain/data/accounts\<close>: the files by (user id, file name), the
  error code \<open>mkdir\<close> fails with for a user's directory, if any, and the error code
  \<open>writeFile\<close> fails with for a path, if any. A failed write is modelled as leaving
  the file as it was.
\<close>

record disk =
  files :: "string \<times> string \<Rightarrow> file_state"
  mkdir_fault :: "string \<Rightarrow> string option"
  write_fault :: "string \<times> string \<Rightarrow> string option"

definition ensureUserDirectory :: "disk \<Rightarrow> string \<Rightarrow> js_error + unit" where
  "ensureUserDirectory d userId =
     (case mkdir_fault d userId of Some code \<Rightarrow> Inl (SystemError code) | None \<Rightarrow> Inr ())"

definition preferences_default :: json where
  "preferences_default =
     JObj [(''workingHours'', JObj [(''start'', JStr ''09:00''), (''end'', JStr ''17:00'')]),
           (''energyPeaks'', JArr [JStr ''morning'']),
           (''preferredBreakDuration'', JNum 15),
           (''focusBlockLength'', JNum 60),
           (''workDays'', JArr [JStr ''monday'', JStr ''tuesday'', JStr ''wednesday'',
                                JStr ''thursday'', JStr ''friday'']),
           (''notifications'', JObj [(''taskReminders'', JBool True), (''aiSuggestions'', JBool True),
                                     (''breakReminders'', JBool True), (''weeklyReports'', JBool True)])]"

definition schedule_default :: json where
  "schedule_default =
     JObj [(''events'', JArr []), (''optimizedSchedule'', JArr []), (''lastOptimized'', JNull)]"

text \<open>\<open>lastCalculated\<close> is the time of the call, written here as its instant.\<close>

definition analytics_default :: "instant \<Rightarrow> json" where
  "analytics_default now =
     JObj [(''totalTasks'', JNum 0), (''completedToday'', JNum 0), (''focusTime'', JNum 0),
           (''trends'', JObj [(''completed'', JNum 0), (''focus'', JNum 0),
                              (''totalTasks'', JNum 0), (''aiUsage'', JNum 0)]),
           (''timeDistribution'',
              JObj [(''work'', JObj [(''hours'', JNum 0), (''percentage'', JNum 0)]),
                    (''meetings'', JObj [(''hours'', JNum 0), (''percentage'', JNum 0)]),
                    (''admin'', JObj [(''hours'', JNum 0), (''percentage'', JNum 0)])]),
           (''weeklyData'', JArr []),
           (''lastCalculated'', JNum (of_int now))]"

text \<open>
  \<open>defaults[filename] || {}\<close>: the six own entries are objects and arrays, all
  truthy; a file name that names an inherited member finds that member.
\<close>

definition getDefaultData :: "instant \<Rightarrow> string \<Rightarrow> doc" where
  "getDefaultData now filename =
     (let defaults =
            [(''profile.json'', JsonDoc (JObj [])),
             (''tasks.json'', TaskDoc []),
             (''aichat.json'', ChatDoc []),
             (''schedule.json'', JsonDoc schedule_default),
             (''preferences.json'', JsonDoc preferences_default),
             (''analytics.json'', JsonDoc (analytics_default now))]
      in case map_of defaults filename of
           Some v \<Rightarrow> v
         | None \<Rightarrow> if filename \<in> set objectPrototype then RuntimeObject filename
                   else JsonDoc (JObj []))"

text \<open>
  \<open>readUserFile\<close>: whatever is thrown inside the \<open>try\<close> block reaches the one
  \<open>catch\<close>, which answers with the default document when the error's code is
  \<open>ENOENT\<close> and throws the error again otherwise.
\<close>

definition read_catch :: "instant \<Rightarrow> string \<Rightarrow> js_error \<Rightarrow> js_error + doc" where
  "read_catch now filename e =
     (if e = SystemError ''ENOENT'' then Inr (getDefaultData now filename) else Inl e)"

definition readUserFile :: "instant \<Rightarrow> disk \<Rightarrow> string \<Rightarrow> string \<Rightarrow> js_error + doc" where
  "readUserFile now d userId filename =
     (case ensureUserDirectory d userId of
        Inl e \<Rightarrow> read_catch now filename e
      | Inr _ \<Rightarrow>
          (case files d (userId, filename) of
             Missing \<Rightarrow> read_catch now filename (SystemError ''ENOENT'')
           | Unreadable code \<Rightarrow> read_catch now filename (SystemError code)
           | Corrupt \<Rightarrow> read_catch now filename SyntaxError
           | Holds v \<Rightarrow> Inr v))"

definition writeUserFile :: "disk \<Rightarrow> string \<Rightarrow> string \<Rightarrow> doc \<Rightarrow> (js_error + bool) \<times> disk" where
  "writeUserFile d userId filename v =
     (case ensureUserDirectory d userId of
        Inl e \<Rightarrow> (Inl e, d)
      | Inr _ \<Rightarrow>
          (case write_fault d (userId, filename) of
             Some code \<Rightarrow> (Inl (SystemError code), d)
           | None \<Rightarrow> (Inr True, d \<lparr> files := (files d) ((userId, filename) := Holds v) \<rparr>)))"

section \<open>The task and chat routes (server.js)\<close>

text \<open>
  What a request handler takes from its surroundings: the clock, the identifier
  \<open>generateUserId()\<close> hands out, and the statistics \<open>calculateAnalytics\<close> derives
  from a task list (its trend figures are random in the source).
\<close>

record env =
  now :: instant
  uuid :: string
  analytics :: "task list \<Rightarrow> json"

datatype http_error = NotFound | InternalError | TooManyRequests

text \<open>
  \<open>calculateAnalytics\<close> reads the tasks and preferences, writes \<open>analytics.json\<close> and
  swallows every failure. Only its effect on the disk is kept here.
\<close>

definition calculateAnalytics :: "env \<Rightarrow> disk \<Rightarrow> string \<Rightarrow> disk" where
  "calculateAnalytics e d userId =
     (case readUserFile (now e) d userId ''tasks.json'' of
        Inl _ \<Rightarrow> d
      | Inr tdoc \<Rightarrow>
          (case readUserFile (now e) d userId ''preferences.json'' of
             Inl _ \<Rightarrow> d
           | Inr _ \<Rightarrow>
               (case tdoc of
                  TaskDoc tasks \<Rightarrow> snd (writeUserFile d userId ''analytics.json'' (JsonDoc (analytics e tasks)))
                | _ \<Rightarrow> d)))"

text \<open>\<open>findIndex\<close>: \<open>None\<close> is the source's \<open>-1\<close>.\<close>

fun findIndex :: "('a \<Rightarrow> bool) \<Rightarrow> 'a list \<Rightarrow> nat option" where
  "findIndex P [] = None"
| "findIndex P (x # xs) = (if P x then Some 0 else map_option Suc (findIndex P xs))"

text \<open>
  Each handler returns its answer and the disk it leaves. Status 404 is
  \<open>NotFound\<close>, status 500 \<open>InternalError\<close>, status 429 \<open>TooManyRequests\<close>. A
  document that is not an array makes the array methods throw, which the handler's
  \<open>catch\<close> turns into status 500.
\<close>

definition post_task :: "env \<Rightarrow> disk \<Rightarrow> string \<Rightarrow> task_patch \<Rightarrow> (http_error + task) \<times> disk" where
  "post_task e d userId taskData =
     (case readUserFile (now e) d userId ''tasks.json'' of
        Inr (TaskDoc tasks) \<Rightarrow>
          (let newTask = (assign (only_id (uuid e)) taskData)
                           \<lparr> completed := Boolean False, createdAt := Some (now e) \<rparr>
           in case writeUserFile d userId ''tasks.json'' (TaskDoc (tasks @ [newTask])) of
                (Inl _, d') \<Rightarrow> (Inl InternalError, d')
              | (Inr _, d') \<Rightarrow> (Inr newTask, calculateAnalytics e d' userId))
      | _ \<Rightarrow> (Inl InternalError, d))"

definition put_task ::
  "env \<Rightarrow> disk \<Rightarrow> string \<Rightarrow> string \<Rightarrow> task_patch \<Rightarrow> (http_error + task) \<times> disk" where
  "put_task e d userId taskId updates =
     (case readUserFile (now e) d userId ''tasks.json'' of
        Inr (TaskDoc tasks) \<Rightarrow>
          (case findIndex (\<lambda>t. id_task t = taskId) tasks of
             None \<Rightarrow> (Inl NotFound, d)
           | Some taskIndex \<Rightarrow>
               (let tasks' = tasks [taskIndex := assign (tasks ! taskIndex) updates]
                in case writeUserFile d userId ''tasks.json'' (TaskDoc tasks') of
                     (Inl _, d') \<Rightarrow> (Inl InternalError, d')
                   | (Inr _, d') \<Rightarrow> (Inr (tasks' ! taskIndex), calculateAnalytics e d' userId)))
      | _ \<Rightarrow> (Inl InternalError, d))"

definition delete_task :: "env \<Rightarrow> disk \<Rightarrow> string \<Rightarrow> string \<Rightarrow> (http_error + unit) \<times> disk" where
  "delete_task e d userId taskId =
     (case readUserFile (now e) d userId ''tasks.json'' of
        Inr (TaskDoc tasks) \<Rightarrow>
          (let filteredTasks = filter (\<lambda>t. id_task t \<noteq> taskId) tasks
           in if length filteredTasks = length tasks then (Inl NotFound, d)
              else case writeUserFile d userId ''tasks.json'' (TaskDoc filteredTasks) of
                     (Inl _, d') \<Rightarrow> (Inl InternalError, d')
                   | (Inr _, d') \<Rightarrow> (Inr (), calculateAnalytics e d' userId))
      | _ \<Rightarrow> (Inl InternalError, d))"

text \<open>
  \<open>POST /api/ai/chats\<close>. The verdict of the rate-limiting middleware in front of
  the handler is the argument \<open>allowed\<close>.
\<close>

definition post_ai_chat ::
  "env \<Rightarrow> bool \<Rightarrow> disk \<Rightarrow> string \<Rightarrow> string option \<Rightarrow> string option \<Rightarrow> (http_error + chat) \<times> disk" where
  "post_ai_chat e allowed d userId msg resp =
     (if \<not> allowed then (Inl TooManyRequests, d)
      else
        case readUserFile (now e) d userId ''aichat.json'' of
          Inr (ChatDoc chats) \<Rightarrow>
            (let newChat = \<lparr> id_chat = Some (uuid e), message = msg, response = resp,
                             timestamp = now e \<rparr>;
                 pushed = chats @ [newChat];
                 kept = (if length pushed > 100 then drop (length pushed - 100) pushed else pushed)
             in case writeUserFile d userId ''aichat.json'' (ChatDoc kept) of
                  (Inl _, d') \<Rightarrow> (Inl InternalError, d')
                | (Inr _, d') \<Rightarrow> (Inr newChat, d'))
        | _ \<Rightarrow> (Inl InternalError, d))"

definition delete_ai_chats :: "disk \<Rightarrow> string \<Rightarrow> (http_error + unit) \<times> disk" where
  "delete_ai_chats d userId =
     (case writeUserFile d userId ''aichat.json'' (ChatDoc []) of
        (Inl _, d') \<Rightarrow> (Inl InternalError, d')
      | (Inr _, d') \<Rightarrow> (Inr (), d'))"

text \<open>A run of chat posts by one user, each with its own clock reading and identifier.\<close>

fun post_ai_chats :: "disk \<Rightarrow> string \<Rightarrow> (env \<times> string option \<times> string option) list \<Rightarrow> disk" where
  "post_ai_chats d userId [] = d"
| "post_ai_chats d userId ((e, msg, resp) # rest) =
     post_ai_chats (snd (post_ai_chat e True d userId msg resp)) userId rest"

text \<open>The chat log a user's \<open>aichat.json\<close> holds, empty when there is none.\<close>

definition stored_chats :: "disk \<Rightarrow> string \<Rightarrow> chat list" where
  "stored_chats d userId =
     (case files d (userId, ''aichat.json'') of Holds (ChatDoc cs) \<Rightarrow> cs | _ \<Rightarrow> [])"

definition stored_tasks :: "disk \<Rightarrow> string \<Rightarrow> task list" where
  "stored_tasks d userId =
     (case files d (userId, ''tasks.json'') of Holds (TaskDoc ts) \<Rightarrow> ts | _ \<Rightarrow> [])"

section \<open>TaskManager.toggleComplete and AIChatManager (browser scripts)\<close>




text \<open>
  The chat manager keeps the chat entries it shows; the number of calls to
  \<open>AIService.generateResponse\<close> is recorded beside them.
\<close>

record chat_manager =
  chats :: "chat list"
  responder_calls :: nat

datatype send_outcome = Ignored | LimitReached | Sent | NotSaved

text \<open>
  \<open>trim()\<close> strips white space and line terminators. Strings are lists of 8-bit
  characters here; of these the space, the controls 9 to 13 and the no-break
  space 160 are stripped. The white space beyond code 255 is not modelled.
\<close>

definition isSpace :: "char \<Rightarrow> bool" where
  "isSpace c \<longleftrightarrow> c \<in> set [CHR '' '', CHR 0x09, CHR 0x0A, CHR 0x0B, CHR 0x0C, CHR 0x0D, CHR 0xA0]"

definition trim :: "string \<Rightarrow> string" where
  "trim s = rev (dropWhile isSpace (rev (dropWhile isSpace s)))"

definition isDailyLimitReached :: "int \<Rightarrow> instant \<Rightarrow> chat_manager \<Rightarrow> bool" where
  "isDailyLimitReached tz clock m =
     (let today = toDateString tz clock;
          todayChats = filter (\<lambda>c. toDateString tz (timestamp c) = today) (chats m)
      in length todayChats \<ge> 10)"

text \<open>
  \<open>sendMessage\<close>: \<open>respond\<close> is the responder, \<open>saved\<close> tells whether the server
  stored the exchange. The clock is read once for the limit test and the entry's
  time stamp.
\<close>

definition sendMessage ::
  "int \<Rightarrow> instant \<Rightarrow> (string \<Rightarrow> string) \<Rightarrow> bool \<Rightarrow> string \<Rightarrow> chat_manager
     \<Rightarrow> send_outcome \<times> chat_manager" where
  "sendMessage tz clock respond saved input m =
     (let msg = trim input
      in if msg = [] then (Ignored, m)
         else if isDailyLimitReached tz clock m then (LimitReached, m)
         else
           let aiResponse = respond msg;
               m1 = m \<lparr> responder_calls := responder_calls m + 1 \<rparr>;
               chatData = \<lparr> id_chat = None, message = Some msg, response = Some aiResponse,
                            timestamp = clock \<rparr>
           in if saved then (Sent, m1 \<lparr> chats := chats m1 @ [chatData] \<rparr>) else (NotSaved, m1))"

text \<open>\<open>clearChat\<close>: the user confirms or not, the server clears its log or fails.\<close>

definition clearChat :: "bool \<Rightarrow> bool \<Rightarrow> chat_manager \<Rightarrow> chat_manager" where
  "clearChat confirmed cleared m = (if confirmed \<and> cleared then m \<lparr> chats := [] \<rparr> else m)"

text \<open>Sending the same text \<open>n\<close> times in a row, every exchange stored by the server.\<close>

fun send_repeatedly ::
  "nat \<Rightarrow> int \<Rightarrow> instant \<Rightarrow> (string \<Rightarrow> string) \<Rightarrow> string \<Rightarrow> chat_manager \<Rightarrow> chat_manager" where
  "send_repeatedly 0 tz clock respond input m = m"
| "send_repeatedly (Suc n) tz clock respond input m =
     send_repeatedly n tz clock respond input (snd (sendMessage tz clock respond True input m))"

section \<open>The score as the specification words it\<close>

text \<open>
  The three factors of the AI-optimize score, written from the specification's
  tables, to be compared with the functions of the AI service. The hours until
  the deadline are counted in milliseconds: two hours are 2 * 3600000, a day is
  24 * 3600000.
\<close>

definition claimed_priorityWeight :: "string option \<Rightarrow> number" where
  "claimed_priorityWeight p =
     (if p = Some ''urgent'' then 4 else if p = Some ''high'' then 3
      else if p = Some ''low'' then 1 else 2)"

definition claimed_energyMatchScore :: "string option \<Rightarrow> string option \<Rightarrow> number" where
  "claimed_energyMatchScore user need =
     (if user = Some ''high'' then
        (if need = Some ''high'' then 2 else if need = Some ''medium'' then 1
         else if need = Some ''low'' then 1 / 2 else 1)
      else if user = Some ''medium'' then
        (if need = Some ''high'' then 3 / 2 else if need = Some ''medium'' then 2
         else if need = Some ''low'' then 1 else 1)
      else if user = Some ''low'' then
        (if need = Some ''high'' then 1 / 2 else if need = Some ''medium'' then 1
         else if need = Some ''low'' then 2 else 1)
      else 1)"

definition claimed_deadlineUrgencyScore :: "instant option \<Rightarrow> instant \<Rightarrow> number" where
  "claimed_deadlineUrgencyScore dl currentTime =
     (case dl of
        None \<Rightarrow> 1
      | Some d \<Rightarrow> if d - currentTime < 2 * 3600000 then 3
                  else if d - currentTime < 24 * 3600000 then 2 else 1)"

definition claimed_score :: "instant \<Rightarrow> string option \<Rightarrow> task \<Rightarrow> number" where
  "claimed_score currentTime userEnergy t =
     claimed_priorityWeight (priority t)
       * claimed_energyMatchScore userEnergy (energyRequired t)
       * claimed_deadlineUrgencyScore (deadline t) currentTime"

section \<open>Example data\<close>

definition task_a :: task where
  "task_a = (only_id ''a'') \<lparr> priority := Some ''low'', energyRequired := Some ''high'' \<rparr>"

definition task_b :: task where
  "task_b = (only_id ''b'') \<lparr> priority := Some ''urgent'', energyRequired := Some ''low'',
                               deadline := Some (1000000 + 30 * 60 * 1000) \<rparr>"

definition task_done :: task where
  "task_done = (only_id ''c'') \<lparr> priority := Some ''urgent'', completed := Boolean True,
                                  completedAt := Some 500000 \<rparr>"

text \<open>
  Two tasks that differ in priority only, one of them with a priority that names
  an inherited member, and a stand-in for the runtime's built-in members.
\<close>

definition task_low :: task where
  "task_low = (only_id ''low'') \<lparr> priority := Some ''low'' \<rparr>"

definition task_ctor :: task where
  "task_ctor = (only_id ''ctor'') \<lparr> priority := Some ''constructor'' \<rparr>"

definition no_builtin :: "string \<Rightarrow> string option \<Rightarrow> jsnum" where
  "no_builtin member key = NaN"

section \<open>The list ordering as the specification words it\<close>





text \<open>
  The lists on which the comparator is an ordering. The completion flags agree
  when tasks that count alike as completed or not hold the very same value
  (\<open>false\<close> throughout, say, or a missing property throughout); the priorities are
  plain when none names an inherited member; the deadlines are grouped when the
  tasks of each group either all have a deadline or all have none.
\<close>

definition flags_agree :: "task list \<Rightarrow> bool" where
  "flags_agree ts \<longleftrightarrow>
     (\<forall>a \<in> set ts. \<forall>b \<in> set ts.
        truthy (completed a) = truthy (completed b) \<longrightarrow> completed a = completed b)"

definition plain_key :: "string option \<Rightarrow> bool" where
  "plain_key key = (case key of None \<Rightarrow> True | Some k \<Rightarrow> k \<notin> set objectPrototype)"



text \<open>
  Auxiliary notions for the proofs: two flags agree when they are the same value
  or count differently; the rank joins completion and priority weight into one
  number (weights lie between 1 and 4).
\<close>

definition agree :: "task \<Rightarrow> task \<Rightarrow> bool" where
  "agree a b \<longleftrightarrow> (truthy (completed a) = truthy (completed b)) = (completed a = completed b)"




section \<open>More example data\<close>







text \<open>A task without the property \<open>completed\<close> and a task that holds \<open>false\<close> there.\<close>

definition task_x :: task where
  "task_x = (only_id ''x'') \<lparr> priority := Some ''low'' \<rparr>"

definition task_y :: task where
  "task_y = (only_id ''y'') \<lparr> priority := Some ''urgent'', completed := Boolean False \<rparr>"

text \<open>Disks and a request environment for the examples.\<close>

definition empty_disk :: disk where
  "empty_disk = \<lparr> files = (\<lambda>_. Missing), mkdir_fault = (\<lambda>_. None), write_fault = (\<lambda>_. None) \<rparr>"

definition locked_disk :: disk where
  "locked_disk = empty_disk \<lparr> files := (\<lambda>_. Unreadable ''EACCES'') \<rparr>"

definition nodir_disk :: disk where
  "nodir_disk = empty_disk \<lparr> mkdir_fault := (\<lambda>_. Some ''ENOENT'') \<rparr>"

definition env0 :: env where
  "env0 = \<lparr> now = 1000, uuid = ''t1'', analytics = (\<lambda>_. JNull) \<rparr>"

definition one_task_disk :: disk where
  "one_task_disk = empty_disk \<lparr> files := (files empty_disk) ((''u1'', ''tasks.json'') := Holds (TaskDoc [task_a])) \<rparr>"

text \<open>
  A user's task file can be served without fault: the directory can be made, the
  file can be written, and it is absent or holds a task list. \<open>pushy_body\<close> is a
  request body that tries to set \<open>completed\<close> and \<open>createdAt\<close> itself.
\<close>

definition task_store_ok :: "disk \<Rightarrow> string \<Rightarrow> bool" where
  "task_store_ok d userId \<longleftrightarrow>
     mkdir_fault d userId = None \<and> write_fault d (userId, ''tasks.json'') = None
     \<and> (files d (userId, ''tasks.json'') = Missing
          \<or> (\<exists>ts. files d (userId, ''tasks.json'') = Holds (TaskDoc ts)))"

definition pushy_body :: task_patch where
  "pushy_body = no_updates \<lparr> p_title := Some (Some ''x''), p_completed := Some (Boolean True),
                              p_createdAt := Some (Some 42) \<rparr>"

text \<open>
  The same for a user's chat file, the entry a chat request becomes, and a disk
  whose chat log is full.
\<close>

definition chat_store_ok :: "disk \<Rightarrow> string \<Rightarrow> bool" where
  "chat_store_ok d userId \<longleftrightarrow>
     mkdir_fault d userId = None \<and> write_fault d (userId, ''aichat.json'') = None
     \<and> (files d (userId, ''aichat.json'') = Missing
          \<or> (\<exists>cs. files d (userId, ''aichat.json'') = Holds (ChatDoc cs)))"

definition chat_entry :: "env \<times> string option \<times> string option \<Rightarrow> chat" where
  "chat_entry rq =
     (case rq of (e, msg, resp) \<Rightarrow>
        \<lparr> id_chat = Some (uuid e), message = msg, response = resp, timestamp = now e \<rparr>)"

definition old_chat :: chat where
  "old_chat = \<lparr> id_chat = Some ''c0'', message = Some ''hello'', response = Some ''hi'', timestamp = 7 \<rparr>"

definition full_chat_disk :: disk where
  "full_chat_disk =
     empty_disk \<lparr> files := (files empty_disk)
                    ((''u1'', ''aichat.json'') := Holds (ChatDoc (replicate 100 old_chat))) \<rparr>"





text \<open>
  The number of entries of the chat manager's list that carry today's date, a
  chat manager as its constructor leaves it, and a responder that answers with
  the message itself.
\<close>

definition today_count :: "int \<Rightarrow> instant \<Rightarrow> chat_manager \<Rightarrow> nat" where
  "today_count tz clock m =
     length (filter (\<lambda>c. toDateString tz (timestamp c) = toDateString tz clock) (chats m))"

definition new_manager :: chat_manager where
  "new_manager = \<lparr> chats = [], responder_calls = 0 \<rparr>"

definition echo :: "string \<Rightarrow> string" where
  "echo s = s"

section \<open>Facts about the sort\<close>

text \<open>The sort returns a permutation of its input, whatever the comparator.\<close>

lemma extendRun_split: "extendRun c d p xs = (run, rest) \<Longrightarrow> run @ rest = xs"
  by (induction xs arbitrary: p run rest) (auto simp: Let_def split: if_splits prod.splits)

lemma countAndMakeRun_mset:
  "countAndMakeRun c xs = (run, rest) \<Longrightarrow> mset run + mset rest = mset xs"
proof (induction c xs rule: countAndMakeRun.induct)
  case (3 c elementHigh elementLow following)
  obtain r t where e: "extendRun c (c elementLow elementHigh < 0) elementLow following = (r, t)"
    by (cases "extendRun c (c elementLow elementHigh < 0) elementLow following") auto
  from extendRun_split [OF e] have "mset r + mset t = mset following"
    by (metis mset_append)
  with 3 e show ?case
    by (auto simp: Let_def split: if_splits)
qed auto

lemma binarySearch_bounds:
  "left \<le> right \<Longrightarrow>
     left \<le> binarySearch c p xs left right \<and> binarySearch c p xs left right \<le> right"
proof (induction c p xs left right rule: binarySearch.induct)
  case (1 c pivot xs left right)
  show ?case
  proof (cases "left < right")
    case True
    let ?mid = "left + (right - left) div 2"
    from True have m: "left \<le> ?mid" "?mid < right" by auto
    show ?thesis
    proof (cases "c pivot (xs ! ?mid) < 0")
      case True
      with \<open>left < right\<close> m "1.IH"(1) [of ?mid] show ?thesis
        by (subst (1 2) binarySearch.simps) (auto simp: Let_def)
    next
      case False
      with \<open>left < right\<close> m "1.IH"(2) [of ?mid] show ?thesis
        by (subst (1 2) binarySearch.simps) (auto simp: Let_def)
    qed
  next
    case False
    with "1.prems" show ?thesis by (subst (1 2) binarySearch.simps) simp
  qed
qed

lemma mset_binaryInsert: "mset (binaryInsert c xs p) = add_mset p (mset xs)"
proof -
  have "mset (take k xs) + mset (drop k xs) = mset xs" for k
    by (metis append_take_drop_id mset_append)
  then show ?thesis
    by (simp add: binaryInsert_def Let_def)
qed

lemma mset_foldl_binaryInsert:
  "mset (foldl (binaryInsert c) run rest) = mset run + mset rest"
  by (induction rest arbitrary: run) (simp_all add: mset_binaryInsert)

lemma mset_array_sort: "mset (array_sort cmp xs) = mset xs"
  by (cases "countAndMakeRun (sortCompare cmp) xs")
     (simp add: array_sort_def mset_foldl_binaryInsert countAndMakeRun_mset)

lemma set_array_sort: "set (array_sort cmp xs) = set xs"
  using mset_array_sort [of cmp xs] by (metis set_mset_mset)

lemma set_binaryInsert: "set (binaryInsert c xs p) = insert p (set xs)"
  using mset_binaryInsert [of c xs p] by (metis set_mset_mset set_mset_add_mset_insert)


subsection \<open>Ascending results\<close>

text \<open>
  When the comparator never calls both orders of a pair wrong, the result is
  ascending, and sorting an ascending list changes nothing.
\<close>

lemma successively_tail: "successively P (y # ys) \<Longrightarrow> successively P ys"
  by (cases ys) simp_all

lemma extendRun_run:
  "extendRun c d p xs = (run, rest) \<Longrightarrow>
     successively (\<lambda>previous next. if d then c next previous < 0 else c next previous \<ge> 0) (p # run)"
proof (induction xs arbitrary: p run rest)
  case Nil
  then show ?case by simp
next
  case (Cons x xs)
  show ?case
  proof (cases "if d then c x p \<ge> 0 else c x p < 0")
    case True
    with Cons.prems have "run = []" by (auto simp: Let_def split: if_splits)
    then show ?thesis by simp
  next
    case False
    obtain r t where e: "extendRun c d x xs = (r, t)"
      by (cases "extendRun c d x xs") auto
    with False Cons.prems have run: "run = x # r" by (auto simp: Let_def split: if_splits)
    from Cons.IH [OF e] False show ?thesis
      unfolding run by (auto split: if_splits)
  qed
qed

lemma countAndMakeRun_set:
  "countAndMakeRun c xs = (run, rest) \<Longrightarrow> set run \<subseteq> set xs \<and> set rest \<subseteq> set xs"
  using countAndMakeRun_mset [of c xs run rest]
  by (metis set_mset_mset set_mset_union sup_ge1 sup_ge2)

lemma countAndMakeRun_ascending:
  assumes anti: "\<And>a b. a \<in> set xs \<Longrightarrow> b \<in> set xs \<Longrightarrow> c a b < 0 \<Longrightarrow> c b a \<ge> 0"
    and r: "countAndMakeRun c xs = (run, rest)"
  shows "ascending c run"
  using r anti
proof (induction c xs rule: countAndMakeRun.induct)
  case (1 c)
  then show ?case by (simp add: ascending_def)
next
  case (2 c x)
  then show ?case by (auto simp: ascending_def)
next
  case (3 c elementHigh elementLow following)
  let ?d = "c elementLow elementHigh < 0"
  obtain r t where e: "extendRun c ?d elementLow following = (r, t)"
    by (cases "extendRun c ?d elementLow following") auto
  from extendRun_split [OF e] have following: "following = r @ t" by simp
  have s: "successively (\<lambda>previous next. if ?d then c next previous < 0 else c next previous \<ge> 0)
             (elementHigh # elementLow # r)"
    using extendRun_run [OF e] by simp
  show ?case
  proof (cases ?d)
    case False
    with e "3.prems"(1) have "run = elementHigh # elementLow # r"
      by (auto simp: Let_def)
    with s False show ?thesis
      by (simp add: ascending_def)
  next
    case True
    with e "3.prems"(1) have run: "run = rev (elementHigh # elementLow # r)"
      by (simp add: Let_def)
    from s True have "successively (\<lambda>previous next. c next previous < 0) (elementHigh # elementLow # r)"
      by simp
    then have "successively (\<lambda>previous next. c previous next \<ge> 0) (elementHigh # elementLow # r)"
    proof (rule successively_mono)
      fix x y
      assume "x \<in> set (elementHigh # elementLow # r)" "y \<in> set (elementHigh # elementLow # r)"
        "c y x < 0"
      then show "0 \<le> c x y"
        using "3.prems"(2) [of y x] by (auto simp: following)
    qed
    then show ?thesis
      unfolding run ascending_def by (simp only: successively_rev)
  qed
qed

lemma binarySearch_local:
  assumes "left \<le> right" "right \<le> length xs"
    and "left = 0 \<or> c p (xs ! (left - 1)) \<ge> 0"
    and "right = length xs \<or> c p (xs ! right) < 0"
  shows "(binarySearch c p xs left right = 0 \<or> c p (xs ! (binarySearch c p xs left right - 1)) \<ge> 0)
         \<and> (binarySearch c p xs left right = length xs \<or> c p (xs ! binarySearch c p xs left right) < 0)"
  using assms
proof (induction c p xs left right rule: binarySearch.induct)
  case (1 c pivot xs left right)
  show ?case
  proof (cases "left < right")
    case lr: True
    let ?mid = "left + (right - left) div 2"
    from lr have m: "left \<le> ?mid" "?mid < right" by auto
    show ?thesis
    proof (cases "c pivot (xs ! ?mid) < 0")
      case True
      have "binarySearch c pivot xs left right = binarySearch c pivot xs left ?mid"
        using lr True by (subst binarySearch.simps) (simp add: Let_def)
      moreover have "(binarySearch c pivot xs left ?mid = 0
            \<or> c pivot (xs ! (binarySearch c pivot xs left ?mid - 1)) \<ge> 0)
         \<and> (binarySearch c pivot xs left ?mid = length xs
            \<or> c pivot (xs ! binarySearch c pivot xs left ?mid) < 0)"
        using "1.IH"(1) [OF lr refl True] m "1.prems" True by auto
      ultimately show ?thesis by simp
    next
      case False
      have "binarySearch c pivot xs left right = binarySearch c pivot xs (?mid + 1) right"
        using lr False by (subst binarySearch.simps) (simp add: Let_def)
      moreover have "(binarySearch c pivot xs (?mid + 1) right = 0
            \<or> c pivot (xs ! (binarySearch c pivot xs (?mid + 1) right - 1)) \<ge> 0)
         \<and> (binarySearch c pivot xs (?mid + 1) right = length xs
            \<or> c pivot (xs ! binarySearch c pivot xs (?mid + 1) right) < 0)"
        using "1.IH"(2) [OF lr refl False] m "1.prems" False by auto
      ultimately show ?thesis by simp
    qed
  next
    case False
    with "1.prems" have "left = right" by simp
    moreover have "binarySearch c pivot xs left right = left"
      using False by (subst binarySearch.simps) simp
    ultimately show ?thesis using "1.prems" by auto
  qed
qed

lemma successively_take: "successively P xs \<Longrightarrow> successively P (take k xs)"
  by (metis append_take_drop_id successively_append_iff)

lemma successively_drop: "successively P xs \<Longrightarrow> successively P (drop k xs)"
  by (metis append_take_drop_id successively_append_iff)

lemma binaryInsert_ascending:
  assumes anti: "\<And>b. b \<in> set xs \<Longrightarrow> c p b < 0 \<Longrightarrow> c b p \<ge> 0"
    and asc: "ascending c xs"
  shows "ascending c (binaryInsert c xs p)"
proof -
  let ?k = "binarySearch c p xs 0 (length xs)"
  let ?P = "\<lambda>previous next. c next previous \<ge> 0"
  have k: "?k \<le> length xs"
    using binarySearch_bounds [of 0 "length xs" c p xs] by simp
  from binarySearch_local [of 0 "length xs" xs c p]
  have lo: "?k = 0 \<or> c p (xs ! (?k - 1)) \<ge> 0"
    and hi: "?k = length xs \<or> c p (xs ! ?k) < 0"
    by auto
  have t: "successively ?P (take ?k xs)" and d: "successively ?P (drop ?k xs)"
    using asc by (simp_all add: ascending_def successively_take successively_drop)
  have left: "take ?k xs = [] \<or> ?P (last (take ?k xs)) p"
  proof (cases "?k = 0")
    case True
    then show ?thesis by simp
  next
    case False
    with k have "take ?k xs \<noteq> []" by auto
    then have "last (take ?k xs) = take ?k xs ! (length (take ?k xs) - 1)"
      by (rule last_conv_nth)
    also have "\<dots> = xs ! (?k - 1)"
      using k False by (simp add: min_def)
    finally have "last (take ?k xs) = xs ! (?k - 1)" .
    with lo False show ?thesis by simp
  qed
  have right: "drop ?k xs = [] \<or> ?P p (hd (drop ?k xs))"
  proof (cases "?k = length xs")
    case True
    then show ?thesis by simp
  next
    case False
    with k have lt: "?k < length xs" by simp
    then have h: "hd (drop ?k xs) = xs ! ?k"
      by (simp add: hd_drop_conv_nth)
    from lt have "xs ! ?k \<in> set xs" by simp
    with hi False anti h show ?thesis by auto
  qed
  have "successively ?P (p # drop ?k xs)"
    using d right by (cases "drop ?k xs") simp_all
  with t left have "successively ?P (take ?k xs @ p # drop ?k xs)"
    by (auto simp: successively_append_iff)
  then show ?thesis
    by (simp add: ascending_def binaryInsert_def Let_def)
qed

lemma foldl_binaryInsert_ascending:
  assumes anti: "\<And>a b. a \<in> S \<Longrightarrow> b \<in> S \<Longrightarrow> c a b < 0 \<Longrightarrow> c b a \<ge> 0"
  shows "set run \<subseteq> S \<Longrightarrow> set rest \<subseteq> S \<Longrightarrow> ascending c run
           \<Longrightarrow> ascending c (foldl (binaryInsert c) run rest)"
proof (induction rest arbitrary: run)
  case Nil
  then show ?case by simp
next
  case (Cons p rest)
  have "ascending c (binaryInsert c run p)"
    using Cons.prems by (intro binaryInsert_ascending anti) auto
  moreover have "set (binaryInsert c run p) \<subseteq> S"
    using Cons.prems by (simp add: set_binaryInsert)
  ultimately show ?case
    using Cons.IH [of "binaryInsert c run p"] Cons.prems by simp
qed

lemma array_sort_ascending:
  assumes "\<And>a b. a \<in> set xs \<Longrightarrow> b \<in> set xs \<Longrightarrow> sortCompare cmp a b < 0 \<Longrightarrow> sortCompare cmp b a \<ge> 0"
  shows "ascending (sortCompare cmp) (array_sort cmp xs)"
proof -
  obtain run rest where r: "countAndMakeRun (sortCompare cmp) xs = (run, rest)"
    by (cases "countAndMakeRun (sortCompare cmp) xs") auto
  have "ascending (sortCompare cmp) run"
    using assms r by (rule countAndMakeRun_ascending)
  with countAndMakeRun_set [OF r] assms
  have "ascending (sortCompare cmp) (foldl (binaryInsert (sortCompare cmp)) run rest)"
    by (intro foldl_binaryInsert_ascending [where S = "set xs"]) auto
  then show ?thesis by (simp add: array_sort_def r)
qed

lemma extendRun_ascending_all:
  "successively (\<lambda>previous next. c next previous \<ge> 0) (p # xs) \<Longrightarrow> extendRun c False p xs = (xs, [])"
  by (induction xs arbitrary: p) (auto simp: Let_def)

lemma countAndMakeRun_ascending_all:
  "ascending c xs \<Longrightarrow> countAndMakeRun c xs = (xs, [])"
proof (induction c xs rule: countAndMakeRun.induct)
  case (3 c elementHigh elementLow following)
  then have "\<not> c elementLow elementHigh < 0"
    and "successively (\<lambda>previous next. c next previous \<ge> 0) (elementLow # following)"
    by (auto simp: ascending_def)
  then show ?case
    by (simp add: extendRun_ascending_all)
qed auto

lemma array_sort_fixed:
  "ascending (sortCompare cmp) xs \<Longrightarrow> array_sort cmp xs = xs"
  by (simp add: array_sort_def countAndMakeRun_ascending_all)

lemma array_sort_idempotent:
  assumes "\<And>a b. a \<in> set xs \<Longrightarrow> b \<in> set xs \<Longrightarrow> sortCompare cmp a b < 0 \<Longrightarrow> sortCompare cmp b a \<ge> 0"
  shows "array_sort cmp (array_sort cmp xs) = array_sort cmp xs"
  using assms by (intro array_sort_fixed array_sort_ascending)


subsection \<open>Consistent comparators\<close>

text \<open>
  For a comparator that is consistent with a total preorder the result is sorted
  by that preorder and elements that tie keep their relative order.
\<close>

lemma consistent_on_rel: "consistent_on S c le \<Longrightarrow> a \<in> S \<Longrightarrow> b \<in> S \<Longrightarrow> (c a b < 0) = (\<not> le b a)"
  unfolding consistent_on_def by blast

lemma consistent_on_total: "consistent_on S c le \<Longrightarrow> a \<in> S \<Longrightarrow> b \<in> S \<Longrightarrow> le a b \<or> le b a"
  unfolding consistent_on_def by blast

lemma consistent_on_trans:
  "consistent_on S c le \<Longrightarrow> a \<in> S \<Longrightarrow> b \<in> S \<Longrightarrow> d \<in> S \<Longrightarrow> le a b \<Longrightarrow> le b d \<Longrightarrow> le a d"
  unfolding consistent_on_def by blast

lemma consistent_on_anti:
  assumes "consistent_on S c le" "a \<in> S" "b \<in> S" "c a b < 0"
  shows "c b a \<ge> 0"
proof -
  from assms(4) consistent_on_rel [OF assms(1-3)] have "\<not> le b a" by simp
  with consistent_on_total [OF assms(1-3)] have "le a b" by auto
  with consistent_on_rel [OF assms(1,3,2)] have "\<not> c b a < 0" by simp
  then show ?thesis by simp
qed

lemma consistent_on_subset: "consistent_on S c le \<Longrightarrow> T \<subseteq> S \<Longrightarrow> consistent_on T c le"
  unfolding consistent_on_def by blast

lemma ascending_sorted:
  assumes con: "consistent_on S c le" and sub: "set ys \<subseteq> S" and asc: "ascending c ys"
  shows "sorted_wrt le ys"
proof -
  have s: "successively le ys"
    using asc unfolding ascending_def
  proof (rule successively_mono)
    fix x y assume "x \<in> set ys" "y \<in> set ys" "0 \<le> c y x"
    with sub have "x \<in> S" "y \<in> S" "\<not> c y x < 0" by auto
    with consistent_on_rel [OF con, of y x] show "le x y" by simp
  qed
  have tr: "le x z" if "x \<in> set ys" "y \<in> set ys" "z \<in> set ys" "le x y" "le y z" for x y z
  proof -
    from that sub have "x \<in> S" "y \<in> S" "z \<in> S" by auto
    from consistent_on_trans [OF con this that(4,5)] show ?thesis .
  qed
  have "successively le ys = sorted_wrt le ys"
    by (rule successively_iff_sorted_wrt_strong) (rule tr)
  with s show ?thesis by simp
qed

lemma array_sort_sorted:
  assumes con: "consistent_on (set xs) (sortCompare cmp) le"
  shows "sorted_wrt le (array_sort cmp xs)"
proof (rule ascending_sorted [OF con])
  show "set (array_sort cmp xs) \<subseteq> set xs" by (simp add: set_array_sort)
  show "ascending (sortCompare cmp) (array_sort cmp xs)"
    by (rule array_sort_ascending) (rule consistent_on_anti [OF con])
qed

lemma filter_rev_no_two:
  "sorted_wrt (\<lambda>x y. \<not> (P x \<and> P y)) w \<Longrightarrow> filter P (rev w) = filter P w"
proof (induction w)
  case Nil
  then show ?case by simp
next
  case (Cons x w)
  then have ih: "filter P (rev w) = filter P w" by simp
  show ?case
  proof (cases "P x")
    case True
    with Cons.prems have "\<forall>y \<in> set w. \<not> P y" by auto
    then have "filter P w = []" by (simp add: filter_empty_conv)
    with True ih show ?thesis by simp
  next
    case False
    with ih show ?thesis by simp
  qed
qed

lemma descending_no_two:
  assumes con: "consistent_on S c le" and sub: "set w \<subseteq> S" and a: "a \<in> S"
    and desc: "successively (\<lambda>previous next. c next previous < 0) w"
  shows "sorted_wrt (\<lambda>x y. \<not> ((le x a \<and> le a x) \<and> (le y a \<and> le a y))) w"
proof -
  have s: "successively (\<lambda>x y. \<not> le x y) w"
    using desc
  proof (rule successively_mono)
    fix x y assume "x \<in> set w" "y \<in> set w" "c y x < 0"
    with sub have "x \<in> S" "y \<in> S" "c y x < 0" by auto
    with consistent_on_rel [OF con, of y x] show "\<not> le x y" by simp
  qed
  have tr: "\<not> le x z" if "x \<in> set w" "y \<in> set w" "z \<in> set w" "\<not> le x y" "\<not> le y z" for x y z
  proof
    assume xz: "le x z"
    from that sub have m: "x \<in> S" "y \<in> S" "z \<in> S" by auto
    from that(5) consistent_on_total [OF con m(2,3)] have "le z y" by auto
    with xz consistent_on_trans [OF con m(1,3,2)] have "le x y" by blast
    with that(4) show False by simp
  qed
  have "successively (\<lambda>x y. \<not> le x y) w = sorted_wrt (\<lambda>x y. \<not> le x y) w"
    by (rule successively_iff_sorted_wrt_strong) (rule tr)
  with s have "sorted_wrt (\<lambda>x y. \<not> le x y) w" by simp
  then show ?thesis
  proof (rule sorted_wrt_mono_rel [rotated])
    fix x y assume x: "x \<in> set w" and y: "y \<in> set w" and n: "\<not> le x y"
    show "\<not> ((le x a \<and> le a x) \<and> (le y a \<and> le a y))"
    proof
      assume "(le x a \<and> le a x) \<and> (le y a \<and> le a y)"
      then have "le x a" "le a y" by auto
      moreover from x y sub have "x \<in> S" "y \<in> S" by auto
      ultimately have "le x y" using consistent_on_trans [OF con _ a, of x y] by blast
      with n show False by simp
    qed
  qed
qed

lemma countAndMakeRun_stable:
  assumes con: "consistent_on (set xs) c le" and a: "a \<in> set xs"
    and r: "countAndMakeRun c xs = (run, rest)"
  shows "filter (\<lambda>t. le t a \<and> le a t) run @ filter (\<lambda>t. le t a \<and> le a t) rest
         = filter (\<lambda>t. le t a \<and> le a t) xs"
  using r con a
proof (induction c xs rule: countAndMakeRun.induct)
  case (1 c)
  then show ?case by simp
next
  case (2 c x)
  then show ?case by auto
next
  case (3 c elementHigh elementLow following)
  let ?d = "c elementLow elementHigh < 0"
  let ?P = "\<lambda>t. le t a \<and> le a t"
  obtain r t where e: "extendRun c ?d elementLow following = (r, t)"
    by (cases "extendRun c ?d elementLow following") auto
  from extendRun_split [OF e] have following: "following = r @ t" by simp
  let ?w = "elementHigh # elementLow # r"
  have whole: "elementHigh # elementLow # following = ?w @ t" by (simp add: following)
  show ?case
  proof (cases ?d)
    case False
    with e "3.prems"(1) have "run = ?w" "rest = t" by (auto simp: Let_def)
    then show ?thesis by (simp add: following)
  next
    case True
    with e "3.prems"(1) have run: "run = rev ?w" and rest: "rest = t" by (auto simp: Let_def)
    have "successively (\<lambda>previous next. c next previous < 0) ?w"
      using extendRun_run [OF e] True by simp
    moreover have "set ?w \<subseteq> set (elementHigh # elementLow # following)" by (auto simp: following)
    ultimately have "sorted_wrt (\<lambda>x y. \<not> (?P x \<and> ?P y)) ?w"
      using descending_no_two [OF "3.prems"(2) _ "3.prems"(3)] by blast
    then have "filter ?P (rev ?w) = filter ?P ?w"
      by (rule filter_rev_no_two)
    then show ?thesis
      unfolding run rest whole by simp
  qed
qed

lemma binarySearch_sorted:
  assumes con: "consistent_on S c le" and sub: "set xs \<subseteq> S" and p: "p \<in> S"
    and srt: "sorted_wrt le xs"
  shows "(\<forall>x \<in> set (take (binarySearch c p xs 0 (length xs)) xs). le x p)
         \<and> (\<forall>x \<in> set (drop (binarySearch c p xs 0 (length xs)) xs). \<not> le x p)"
proof -
  define k where "k = binarySearch c p xs 0 (length xs)"
  have k: "k \<le> length xs"
    using binarySearch_bounds [of 0 "length xs" c p xs] by (simp add: k_def)
  from binarySearch_local [of 0 "length xs" xs c p]
  have lo: "k = 0 \<or> c p (xs ! (k - 1)) \<ge> 0"
    and hi: "k = length xs \<or> c p (xs ! k) < 0"
    by (auto simp: k_def)
  have nth_S: "xs ! i \<in> S" if "i < length xs" for i
    using that sub by (meson nth_mem subsetD)
  have low: "le x p" if "x \<in> set (take k xs)" for x
  proof -
    from that obtain i where i: "i < k" "x = xs ! i"
      using k by (auto simp: in_set_conv_nth)
    with lo have kk: "k \<noteq> 0" and c0: "\<not> c p (xs ! (k - 1)) < 0" by auto
    from kk k have k1: "k - 1 < length xs" by simp
    from c0 consistent_on_rel [OF con p nth_S [OF k1]] have l1: "le (xs ! (k - 1)) p"
      by simp
    show ?thesis
    proof (cases "i = k - 1")
      case True
      with l1 i show ?thesis by simp
    next
      case False
      with i have ik: "i < k - 1" by simp
      with srt k1 have l2: "le (xs ! i) (xs ! (k - 1))"
        by (simp add: sorted_wrt_nth_less)
      from ik k1 have il: "i < length xs" by simp
      from consistent_on_trans [OF con nth_S [OF il] nth_S [OF k1] p l2 l1] i
      show ?thesis by simp
    qed
  qed
  have high: "\<not> le x p" if "x \<in> set (drop k xs)" for x
  proof
    assume xp: "le x p"
    from that obtain i where i: "i < length xs - k" "x = xs ! (k + i)"
      by (auto simp: in_set_conv_nth)
    define j where "j = k + i"
    from i have j: "k \<le> j" "j < length xs" "x = xs ! j"
      by (simp_all add: j_def)
    then have kl: "k < length xs" by simp
    with hi have "c p (xs ! k) < 0" by simp
    with consistent_on_rel [OF con p nth_S [OF kl]] have n: "\<not> le (xs ! k) p"
      by simp
    have kx: "le (xs ! k) x"
    proof (cases "j = k")
      case True
      with j consistent_on_total [OF con nth_S [OF kl] nth_S [OF kl]] show ?thesis by auto
    next
      case False
      with j have "k < j" by simp
      with srt j show ?thesis by (simp add: sorted_wrt_nth_less)
    qed
    from j nth_S have xS: "x \<in> S" by simp
    from consistent_on_trans [OF con nth_S [OF kl] xS p kx xp] n show False by simp
  qed
  from low high show ?thesis unfolding k_def by blast
qed

lemma binaryInsert_stable:
  assumes con: "consistent_on S c le" and sub: "set xs \<subseteq> S" and p: "p \<in> S" and a: "a \<in> S"
    and srt: "sorted_wrt le xs"
  shows "filter (\<lambda>t. le t a \<and> le a t) (binaryInsert c xs p)
         = filter (\<lambda>t. le t a \<and> le a t) xs @ filter (\<lambda>t. le t a \<and> le a t) [p]"
proof -
  let ?k = "binarySearch c p xs 0 (length xs)"
  let ?P = "\<lambda>t. le t a \<and> le a t"
  from binarySearch_sorted [OF con sub p srt]
  have high: "\<forall>x \<in> set (drop ?k xs). \<not> le x p" by simp
  have split: "filter ?P xs = filter ?P (take ?k xs) @ filter ?P (drop ?k xs)"
    by (metis append_take_drop_id filter_append)
  show ?thesis
  proof (cases "?P p")
    case True
    have "\<not> ?P x" if "x \<in> set (drop ?k xs)" for x
    proof
      assume "?P x"
      with True have "le x a" "le a p" by auto
      moreover from that sub have "x \<in> S" by (meson in_set_dropD subsetD)
      ultimately have "le x p"
        using consistent_on_trans [OF con _ a p, of x] by blast
      with high that show False by simp
    qed
    then have "filter ?P (drop ?k xs) = []" by (simp add: filter_empty_conv)
    with True split show ?thesis
      by (simp add: binaryInsert_def Let_def)
  next
    case False
    with split show ?thesis
      by (auto simp: binaryInsert_def Let_def)
  qed
qed

lemma binaryInsert_sorted:
  assumes con: "consistent_on S c le" and sub: "set xs \<subseteq> S" and p: "p \<in> S"
    and srt: "sorted_wrt le xs"
  shows "sorted_wrt le (binaryInsert c xs p)"
proof (rule ascending_sorted [OF con])
  show "set (binaryInsert c xs p) \<subseteq> S"
    using sub p by (simp add: set_binaryInsert)
  have "ascending c xs"
    unfolding ascending_def
  proof (rule successively_mono [OF successively_if_sorted_wrt [OF srt]])
    fix x y assume "x \<in> set xs" "y \<in> set xs" "le x y"
    with sub have "x \<in> S" "y \<in> S" "le x y" by auto
    with consistent_on_rel [OF con, of y x] have "\<not> c y x < 0" by simp
    then show "0 \<le> c y x" by simp
  qed
  then show "ascending c (binaryInsert c xs p)"
  proof (rule binaryInsert_ascending [rotated])
    fix b assume "b \<in> set xs" and neg: "c p b < 0"
    with sub have "b \<in> S" by auto
    from consistent_on_anti [OF con p this neg] show "0 \<le> c b p" .
  qed
qed

lemma foldl_binaryInsert_stable:
  assumes con: "consistent_on S c le" and a: "a \<in> S"
  shows "set run \<subseteq> S \<Longrightarrow> set rest \<subseteq> S \<Longrightarrow> sorted_wrt le run \<Longrightarrow>
           filter (\<lambda>t. le t a \<and> le a t) (foldl (binaryInsert c) run rest)
           = filter (\<lambda>t. le t a \<and> le a t) run @ filter (\<lambda>t. le t a \<and> le a t) rest"
proof (induction rest arbitrary: run)
  case Nil
  then show ?case by simp
next
  case (Cons p rest)
  from Cons.prems have p: "p \<in> S" and rest: "set rest \<subseteq> S" by auto
  have s1: "sorted_wrt le (binaryInsert c run p)"
    using con Cons.prems(1) p Cons.prems(3) by (rule binaryInsert_sorted)
  have m1: "set (binaryInsert c run p) \<subseteq> S"
    using Cons.prems(1) p by (simp add: set_binaryInsert)
  from Cons.IH [OF m1 rest s1] binaryInsert_stable [OF con Cons.prems(1) p a Cons.prems(3)]
  show ?case by simp
qed

lemma array_sort_stable:
  assumes con: "consistent_on (set xs) (sortCompare cmp) le" and a: "a \<in> set xs"
  shows "filter (\<lambda>t. le t a \<and> le a t) (array_sort cmp xs) = filter (\<lambda>t. le t a \<and> le a t) xs"
proof -
  let ?c = "sortCompare cmp"
  obtain run rest where r: "countAndMakeRun ?c xs = (run, rest)"
    by (cases "countAndMakeRun ?c xs") auto
  from countAndMakeRun_set [OF r] have sub: "set run \<subseteq> set xs" "set rest \<subseteq> set xs" by auto
  have "ascending ?c run"
  proof (rule countAndMakeRun_ascending [OF _ r])
    fix a b assume "a \<in> set xs" "b \<in> set xs" "?c a b < 0"
    then show "0 \<le> ?c b a" by (rule consistent_on_anti [OF con])
  qed
  with con sub(1) have "sorted_wrt le run" by (rule ascending_sorted)
  from foldl_binaryInsert_stable [OF con a sub this] countAndMakeRun_stable [OF con a r]
  show ?thesis by (simp add: array_sort_def r)
qed

section \<open>AI-optimize ordering\<close>

text \<open>
  On keys that name no inherited member, the three factors and the score are the
  ones the specification words.
\<close>

lemma priorityScore_claimed:
  "plain_key (priority t) \<Longrightarrow> priorityScore t = Own (claimed_priorityWeight (priority t))"
  by (cases "priority t")
     (auto simp: priorityScore_def claimed_priorityWeight_def lookup_def priorityWeights_def
        or_default_def plain_key_def)

lemma getEnergyMatchScore_claimed:
  assumes "plain_key userEnergy" "plain_key (energyRequired t)"
  shows "getEnergyMatchScore builtin t userEnergy
         = Num (claimed_energyMatchScore userEnergy (energyRequired t))"
  using assms
  by (cases userEnergy; cases "energyRequired t")
     (auto simp: getEnergyMatchScore_def claimed_energyMatchScore_def lookup_def energyMap_def
        or_default_def to_number_def plain_key_def)

lemma getDeadlineUrgencyScore_claimed:
  "getDeadlineUrgencyScore t currentTime = claimed_deadlineUrgencyScore (deadline t) currentTime"
proof (cases "deadline t")
  case None
  then show ?thesis
    by (simp add: getDeadlineUrgencyScore_def claimed_deadlineUrgencyScore_def)
next
  case (Some d)
  have lt: "((of_int (d - currentTime) :: rat) / (1000 * 60 * 60) < of_int k) = (d - currentTime < k * 3600000)" for k :: int
  proof -
    have "((of_int (d - currentTime) :: rat) / 3600000 < of_int k)
            = ((of_int (d - currentTime) :: rat) < of_int k * 3600000)"
      by (simp add: pos_divide_less_eq)
    also have "\<dots> = ((of_int (d - currentTime) :: rat) < of_int (k * 3600000))"
      by simp
    also have "\<dots> = (d - currentTime < k * 3600000)"
      by (simp only: of_int_less_iff)
    finally show ?thesis by simp
  qed
  from lt [of 2] lt [of 24] Some show ?thesis
    by (simp add: getDeadlineUrgencyScore_def claimed_deadlineUrgencyScore_def Let_def)
qed

lemma calculateScore_claimed:
  assumes "plain_key userEnergy" "plain_key (priority t)" "plain_key (energyRequired t)"
  shows "calculateScore builtin currentTime userEnergy t = Num (claimed_score currentTime userEnergy t)"
  using assms
  by (simp add: calculateScore_def claimed_score_def priorityScore_claimed
      getEnergyMatchScore_claimed getDeadlineUrgencyScore_claimed to_number_def js_times_def)

text \<open>
  For such keys \<open>suggestTaskReorder\<close> returns the tasks by descending score, tasks
  of equal score in their original relative order.
\<close>

lemma suggestTaskReorder_plain:
  assumes ue: "plain_key userEnergy"
    and ts: "\<And>t. t \<in> set tasks \<Longrightarrow> plain_key (priority t) \<and> plain_key (energyRequired t)"
  shows "sorted_wrt (\<lambda>a b. claimed_score currentTime userEnergy a \<ge> claimed_score currentTime userEnergy b)
           (suggestTaskReorder builtin tasks currentTime userEnergy)"
    and "t \<in> set tasks \<Longrightarrow>
         filter (\<lambda>x. claimed_score currentTime userEnergy x = claimed_score currentTime userEnergy t)
           (suggestTaskReorder builtin tasks currentTime userEnergy)
         = filter (\<lambda>x. claimed_score currentTime userEnergy x = claimed_score currentTime userEnergy t) tasks"
proof -
  let ?k = "claimed_score currentTime userEnergy"
  let ?cmp = "\<lambda>a b. js_minus (calculateScore builtin currentTime userEnergy b)
                              (calculateScore builtin currentTime userEnergy a)"
  let ?le = "\<lambda>a b. ?k a \<ge> ?k b"
  have c: "sortCompare ?cmp a b = ?k b - ?k a" if "a \<in> set tasks" "b \<in> set tasks" for a b
    using that ts [of a] ts [of b] ue
    by (simp add: sortCompare_def calculateScore_claimed js_minus_def)
  have con: "consistent_on (set tasks) (sortCompare ?cmp) ?le"
    unfolding consistent_on_def
  proof (intro conjI ballI impI)
    fix a b assume "a \<in> set tasks" "b \<in> set tasks"
    then show "(sortCompare ?cmp a b < 0) = (\<not> ?k b \<ge> ?k a)"
      by (simp add: c not_le)
  next
    fix a b :: task
    show "?k a \<ge> ?k b \<or> ?k b \<ge> ?k a" by (rule linear)
  next
    fix a b d :: task
    assume "?k a \<ge> ?k b" "?k b \<ge> ?k d"
    then show "?k a \<ge> ?k d" by (rule order_trans [rotated])
  qed
  show "sorted_wrt ?le (suggestTaskReorder builtin tasks currentTime userEnergy)"
    unfolding suggestTaskReorder_def by (rule array_sort_sorted [OF con])
  assume t: "t \<in> set tasks"
  have "(\<lambda>x. ?k x = ?k t) = (\<lambda>x. ?k x \<ge> ?k t \<and> ?k t \<ge> ?k x)"
    by (rule ext) auto
  then show "filter (\<lambda>x. ?k x = ?k t) (suggestTaskReorder builtin tasks currentTime userEnergy)
             = filter (\<lambda>x. ?k x = ?k t) tasks"
    unfolding suggestTaskReorder_def using array_sort_stable [OF con t] by simp
qed

text \<open>
  C1. The specification gives every missing or unknown priority the weight 2. A
  priority that names a member every object inherits, such as \<open>constructor\<close>, is
  found in the weight table as that member: the score of the task is \<open>NaN\<close>, the
  comparator's answer for every pair with that task is \<open>NaN\<close>, which the sort takes
  for a tie, and the task stays where it was. With user energy high, the task
  with priority \<open>low\<close> has the score 1 and the task with priority \<open>constructor\<close>
  would have the score 2 and come first; the list comes back unchanged.
\<close>

theorem suggestTaskReorder_inherited_priority:
  "calculateScore builtin currentTime (Some ''high'') task_low = Num 1
   \<and> calculateScore builtin currentTime (Some ''high'') task_ctor = NaN
   \<and> claimed_score currentTime (Some ''high'') task_low = 1
   \<and> claimed_score currentTime (Some ''high'') task_ctor = 2
   \<and> suggestTaskReorder builtin [task_low, task_ctor] currentTime (Some ''high'')
       = [task_low, task_ctor]"
proof -
  have low: "calculateScore builtin currentTime (Some ''high'') task_low = Num 1"
    by (simp add: calculateScore_def priorityScore_def getEnergyMatchScore_def
        getDeadlineUrgencyScore_def lookup_def priorityWeights_def energyMap_def or_default_def
        to_number_def js_times_def task_low_def only_id_def)
  have ctor: "calculateScore builtin currentTime (Some ''high'') task_ctor = NaN"
    by (simp add: calculateScore_def priorityScore_def getEnergyMatchScore_def
        getDeadlineUrgencyScore_def lookup_def priorityWeights_def energyMap_def or_default_def
        to_number_def js_times_def objectPrototype_def task_ctor_def only_id_def)
  have claimed_low: "claimed_score currentTime (Some ''high'') task_low = 1"
    by (simp add: claimed_score_def claimed_priorityWeight_def claimed_energyMatchScore_def
        claimed_deadlineUrgencyScore_def task_low_def only_id_def)
  have claimed_ctor: "claimed_score currentTime (Some ''high'') task_ctor = 2"
    by (simp add: claimed_score_def claimed_priorityWeight_def claimed_energyMatchScore_def
        claimed_deadlineUrgencyScore_def task_ctor_def only_id_def)
  have "suggestTaskReorder builtin [task_low, task_ctor] currentTime (Some ''high'')
        = [task_low, task_ctor]"
    by (simp add: suggestTaskReorder_def array_sort_def sortCompare_def js_minus_def low ctor)
  with low ctor claimed_low claimed_ctor show ?thesis by simp
qed

section \<open>AI-optimize leaves completed tasks alone\<close>

text \<open>
  C7. For every task list handed to AI-optimize, only the incomplete tasks are
  scored and reordered; every completed task comes after the optimized active
  list, unchanged and in the relative order the completed tasks had before.
\<close>

theorem optimizeWithAI_keeps_completed:
  "(let active = suggestTaskReorder builtin (filter (\<lambda>t. \<not> truthy (completed t)) tasks) currentTime
                   (Some (toLowerCase (fst (calculateEnergyLevel (getHours tz currentTime)))))
    in optimizeWithAI builtin tz currentTime tasks = active @ filter (\<lambda>t. truthy (completed t)) tasks
       \<and> (\<forall>t \<in> set active. \<not> truthy (completed t))
       \<and> mset active = mset (filter (\<lambda>t. \<not> truthy (completed t)) tasks))
   \<and> filter (\<lambda>t. truthy (completed t)) (optimizeWithAI builtin tz currentTime tasks)
       = filter (\<lambda>t. truthy (completed t)) tasks"
proof -
  let ?e = "Some (toLowerCase (fst (calculateEnergyLevel (getHours tz currentTime))))"
  let ?active = "suggestTaskReorder builtin (filter (\<lambda>t. \<not> truthy (completed t)) tasks) currentTime ?e"
  have set_act: "set ?active = {t \<in> set tasks. \<not> truthy (completed t)}"
    by (simp add: suggestTaskReorder_def set_array_sort)
  have eq: "optimizeWithAI builtin tz currentTime tasks
            = ?active @ filter (\<lambda>t. truthy (completed t)) tasks"
    by (cases tasks) (simp_all add: optimizeWithAI_def Let_def suggestTaskReorder_def array_sort_def)
  have none: "filter (\<lambda>t. truthy (completed t)) ?active = []"
    using set_act by (simp add: filter_empty_conv)
  have ms: "mset ?active = mset (filter (\<lambda>t. \<not> truthy (completed t)) tasks)"
    by (simp add: suggestTaskReorder_def mset_array_sort)
  have "filter (\<lambda>t. truthy (completed t)) (optimizeWithAI builtin tz currentTime tasks)
        = filter (\<lambda>t. truthy (completed t)) tasks"
    by (simp add: eq none)
  with eq set_act ms show ?thesis
    by (simp add: Let_def)
qed

theorem optimizeWithAI_keeps_completed_witness:
  "optimizeWithAI no_builtin 0 1000000 [task_done, task_a, task_b] = [task_b, task_a, task_done]
   \<and> \<not> truthy (completed task_b) \<and> \<not> truthy (completed task_a) \<and> truthy (completed task_done)"
proof -
  have c: "truthy (completed task_done)" "\<not> truthy (completed task_a)" "\<not> truthy (completed task_b)"
    by (simp_all add: task_done_def task_a_def task_b_def only_id_def)
  have e: "toLowerCase (fst (calculateEnergyLevel (getHours 0 1000000))) = ''low''"
    by (simp add: getHours_def calculateEnergyLevel_def toLowerCase_def)
  have pa: "plain_key (Some ''low'')" "plain_key (priority task_a)" "plain_key (energyRequired task_a)"
    by (simp_all add: plain_key_def objectPrototype_def task_a_def only_id_def)
  have pb: "plain_key (priority task_b)" "plain_key (energyRequired task_b)"
    by (simp_all add: plain_key_def objectPrototype_def task_b_def only_id_def)
  have sa: "calculateScore no_builtin 1000000 (Some ''low'') task_a = Num (1 / 2)"
    unfolding calculateScore_claimed [OF pa]
    by (simp add: claimed_score_def claimed_priorityWeight_def
        claimed_energyMatchScore_def claimed_deadlineUrgencyScore_def task_a_def only_id_def)
  have sb: "calculateScore no_builtin 1000000 (Some ''low'') task_b = Num 24"
    unfolding calculateScore_claimed [OF pa(1) pb]
    by (simp add: claimed_score_def claimed_priorityWeight_def
        claimed_energyMatchScore_def claimed_deadlineUrgencyScore_def task_b_def only_id_def)
  have out: "suggestTaskReorder no_builtin [task_a, task_b] 1000000 (Some ''low'') = [task_b, task_a]"
    by (simp add: suggestTaskReorder_def array_sort_def sortCompare_def js_minus_def sa sb)
  from optimizeWithAI_keeps_completed [of no_builtin "[task_done, task_a, task_b]" 1000000 0] c e out
  show ?thesis
    by (simp add: Let_def)
qed

section \<open>The task list ordering\<close>




lemma agree_sym: "agree a b \<Longrightarrow> agree b a"
  by (auto simp: agree_def)

lemma flags_agree_pair:
  assumes "flags_agree ts" "a \<in> set ts" "b \<in> set ts"
  shows "agree a b"
  unfolding agree_def
proof
  assume t: "truthy (completed a) = truthy (completed b)"
  from assms(1)
  have "\<forall>a \<in> set ts. \<forall>b \<in> set ts.
          truthy (completed a) = truthy (completed b) \<longrightarrow> completed a = completed b"
    unfolding flags_agree_def .
  from bspec [OF bspec [OF this assms(2)] assms(3)] t
  show "completed a = completed b" by (rule mp)
next
  assume "completed a = completed b"
  then show "truthy (completed a) = truthy (completed b)" by (rule arg_cong)
qed










text \<open>
  With agreeing flags alone the comparator never calls both orders of a pair
  wrong, so the result is ascending and a second sort changes nothing.
\<close>

lemma compareTasks_anti:
  assumes "agree a b" "sortCompare compareTasks a b < 0"
  shows "sortCompare compareTasks b a \<ge> 0"
proof (cases "completed a = completed b")
  case False
  with assms show ?thesis
    by (auto simp: sortCompare_def compareTasks_def agree_def split: if_splits)
next
  case True
  let ?pa = "or_default (lookup priorityOrder (priority a)) 2"
  let ?pb = "or_default (lookup priorityOrder (priority b)) 2"
  show ?thesis
  proof (cases "?pa = ?pb")
    case False
    with True assms(2) show ?thesis
      by (cases ?pa; cases ?pb)
         (auto simp: sortCompare_def compareTasks_def Let_def to_number_def js_minus_def)
  next
    case eq: True
    with True assms(2) show ?thesis
      by (auto simp: sortCompare_def compareTasks_def Let_def split: option.splits)
  qed
qed

lemma sortTasks_ascending:
  assumes "flags_agree ts"
  shows "ascending (sortCompare compareTasks) (sortTasks ts)"
  unfolding sortTasks_def
proof (rule array_sort_ascending)
  fix a b assume "a \<in> set ts" "b \<in> set ts" "sortCompare compareTasks a b < 0"
  with flags_agree_pair [OF assms] show "0 \<le> sortCompare compareTasks b a"
    by (intro compareTasks_anti) auto
qed

lemma sortTasks_twice:
  assumes "flags_agree ts"
  shows "sortTasks (sortTasks ts) = sortTasks ts"
  using sortTasks_ascending [OF assms] unfolding sortTasks_def by (rule array_sort_fixed)









text \<open>
  C6. Sorting twice is to give the same list as sorting once. The comparator
  tests the two completion flags with \<open>!==\<close> and then asks whether the first one is
  truthy: for a task that lacks the property and a task that holds \<open>false\<close> it
  answers \<open>-1\<close> in both orders. The list of such a task \<open>x\<close> and such a task \<open>y\<close>
  is sorted to \<open>y\<close>, \<open>x\<close>, and sorting that list gives \<open>x\<close>, \<open>y\<close> again.
\<close>

theorem sortTasks_not_idempotent:
  "compareTasks task_x task_y = Num (- 1) \<and> compareTasks task_y task_x = Num (- 1)
   \<and> sortTasks [task_x, task_y] = [task_y, task_x]
   \<and> sortTasks (sortTasks [task_x, task_y]) = [task_x, task_y]"
proof -
  have c: "compareTasks task_x task_y = Num (- 1)" "compareTasks task_y task_x = Num (- 1)"
    by (simp_all add: compareTasks_def task_x_def task_y_def only_id_def)
  have ne: "task_x \<noteq> task_y"
    by (simp add: task_x_def task_y_def only_id_def)
  have s1: "sortTasks [task_x, task_y] = [task_y, task_x]"
    by (simp add: sortTasks_def array_sort_def sortCompare_def c)
  have s2: "sortTasks [task_y, task_x] = [task_x, task_y]"
    by (simp add: sortTasks_def array_sort_def sortCompare_def c)
  from c s1 s2 show ?thesis by simp
qed

section \<open>Reading from the document store\<close>

text \<open>
  C4, as the one \<open>catch\<close> of \<open>readUserFile\<close> decides it. A read returns the
  resource's default document whenever a call inside the \<open>try\<close> block fails with
  the code \<open>ENOENT\<close>: when the file is not there, and also when the user's
  directory cannot be made for that reason. The defaults are the empty list for
  tasks and chat, the empty object for the profile, the zero-state objects for
  schedule and analytics, the hard-coded object for preferences, and the empty
  object for any other name that names no inherited member. A failure with any
  other code, of the directory call or of the file read, and text that does not
  parse reach the caller as the error itself; a file that parses is returned.
\<close>

theorem readUserFile_defaults:
  "(mkdir_fault d userId = Some ''ENOENT''
      \<or> mkdir_fault d userId = None
          \<and> (files d (userId, filename) = Missing \<or> files d (userId, filename) = Unreadable ''ENOENT'')
      \<longrightarrow> readUserFile clock d userId filename = Inr (getDefaultData clock filename))
   \<and> getDefaultData clock ''tasks.json'' = TaskDoc []
   \<and> getDefaultData clock ''aichat.json'' = ChatDoc []
   \<and> getDefaultData clock ''profile.json'' = JsonDoc (JObj [])
   \<and> getDefaultData clock ''schedule.json''
       = JsonDoc (JObj [(''events'', JArr []), (''optimizedSchedule'', JArr []), (''lastOptimized'', JNull)])
   \<and> getDefaultData clock ''analytics.json''
       = JsonDoc (JObj
           [(''totalTasks'', JNum 0), (''completedToday'', JNum 0), (''focusTime'', JNum 0),
            (''trends'', JObj [(''completed'', JNum 0), (''focus'', JNum 0),
                               (''totalTasks'', JNum 0), (''aiUsage'', JNum 0)]),
            (''timeDistribution'',
               JObj [(''work'', JObj [(''hours'', JNum 0), (''percentage'', JNum 0)]),
                     (''meetings'', JObj [(''hours'', JNum 0), (''percentage'', JNum 0)]),
                     (''admin'', JObj [(''hours'', JNum 0), (''percentage'', JNum 0)])]),
            (''weeklyData'', JArr []),
            (''lastCalculated'', JNum (of_int clock))])
   \<and> getDefaultData clock ''preferences.json''
       = JsonDoc (JObj
           [(''workingHours'', JObj [(''start'', JStr ''09:00''), (''end'', JStr ''17:00'')]),
            (''energyPeaks'', JArr [JStr ''morning'']),
            (''preferredBreakDuration'', JNum 15),
            (''focusBlockLength'', JNum 60),
            (''workDays'', JArr [JStr ''monday'', JStr ''tuesday'', JStr ''wednesday'',
                                 JStr ''thursday'', JStr ''friday'']),
            (''notifications'', JObj [(''taskReminders'', JBool True), (''aiSuggestions'', JBool True),
                                      (''breakReminders'', JBool True), (''weeklyReports'', JBool True)])])
   \<and> (filename \<notin> {''profile.json'', ''tasks.json'', ''aichat.json'', ''schedule.json'',
                     ''preferences.json'', ''analytics.json''}
        \<and> filename \<notin> set objectPrototype
        \<longrightarrow> getDefaultData clock filename = JsonDoc (JObj []))
   \<and> (code \<noteq> ''ENOENT'' \<and> mkdir_fault d userId = Some code
        \<longrightarrow> readUserFile clock d userId filename = Inl (SystemError code))
   \<and> (code \<noteq> ''ENOENT'' \<and> mkdir_fault d userId = None
          \<and> files d (userId, filename) = Unreadable code
        \<longrightarrow> readUserFile clock d userId filename = Inl (SystemError code))
   \<and> (mkdir_fault d userId = None \<and> files d (userId, filename) = Corrupt
        \<longrightarrow> readUserFile clock d userId filename = Inl SyntaxError)
   \<and> (mkdir_fault d userId = None \<and> files d (userId, filename) = Holds v
        \<longrightarrow> readUserFile clock d userId filename = Inr v)"
proof (intro conjI impI)
  show "readUserFile clock d userId filename = Inr (getDefaultData clock filename)"
    if "mkdir_fault d userId = Some ''ENOENT''
        \<or> mkdir_fault d userId = None
           \<and> (files d (userId, filename) = Missing \<or> files d (userId, filename) = Unreadable ''ENOENT'')"
    using that by (auto simp: readUserFile_def ensureUserDirectory_def read_catch_def)
  show "getDefaultData clock ''tasks.json'' = TaskDoc []"
    by (simp add: getDefaultData_def)
  show "getDefaultData clock ''aichat.json'' = ChatDoc []"
    by (simp add: getDefaultData_def)
  show "getDefaultData clock ''profile.json'' = JsonDoc (JObj [])"
    by (simp add: getDefaultData_def)
  show "getDefaultData clock ''schedule.json''
       = JsonDoc (JObj [(''events'', JArr []), (''optimizedSchedule'', JArr []), (''lastOptimized'', JNull)])"
    by (simp add: getDefaultData_def schedule_default_def)
  show "getDefaultData clock ''analytics.json''
       = JsonDoc (JObj
           [(''totalTasks'', JNum 0), (''completedToday'', JNum 0), (''focusTime'', JNum 0),
            (''trends'', JObj [(''completed'', JNum 0), (''focus'', JNum 0),
                               (''totalTasks'', JNum 0), (''aiUsage'', JNum 0)]),
            (''timeDistribution'',
               JObj [(''work'', JObj [(''hours'', JNum 0), (''percentage'', JNum 0)]),
                     (''meetings'', JObj [(''hours'', JNum 0), (''percentage'', JNum 0)]),
                     (''admin'', JObj [(''hours'', JNum 0), (''percentage'', JNum 0)])]),
            (''weeklyData'', JArr []),
            (''lastCalculated'', JNum (of_int clock))])"
    by (simp add: getDefaultData_def analytics_default_def)
  show "getDefaultData clock ''preferences.json''
       = JsonDoc (JObj
           [(''workingHours'', JObj [(''start'', JStr ''09:00''), (''end'', JStr ''17:00'')]),
            (''energyPeaks'', JArr [JStr ''morning'']),
            (''preferredBreakDuration'', JNum 15),
            (''focusBlockLength'', JNum 60),
            (''workDays'', JArr [JStr ''monday'', JStr ''tuesday'', JStr ''wednesday'',
                                 JStr ''thursday'', JStr ''friday'']),
            (''notifications'', JObj [(''taskReminders'', JBool True), (''aiSuggestions'', JBool True),
                                      (''breakReminders'', JBool True), (''weeklyReports'', JBool True)])])"
    by (simp add: getDefaultData_def preferences_default_def)
  show "getDefaultData clock filename = JsonDoc (JObj [])"
    if "filename \<notin> {''profile.json'', ''tasks.json'', ''aichat.json'', ''schedule.json'',
                     ''preferences.json'', ''analytics.json''}
        \<and> filename \<notin> set objectPrototype"
    using that by (simp add: getDefaultData_def)
  show "readUserFile clock d userId filename = Inl (SystemError code)"
    if "code \<noteq> ''ENOENT'' \<and> mkdir_fault d userId = Some code"
    using that by (simp add: readUserFile_def ensureUserDirectory_def read_catch_def)
  show "readUserFile clock d userId filename = Inl (SystemError code)"
    if "code \<noteq> ''ENOENT'' \<and> mkdir_fault d userId = None
          \<and> files d (userId, filename) = Unreadable code"
    using that by (simp add: readUserFile_def ensureUserDirectory_def read_catch_def)
  show "readUserFile clock d userId filename = Inl SyntaxError"
    if "mkdir_fault d userId = None \<and> files d (userId, filename) = Corrupt"
    using that by (simp add: readUserFile_def ensureUserDirectory_def read_catch_def)
  show "readUserFile clock d userId filename = Inr v"
    if "mkdir_fault d userId = None \<and> files d (userId, filename) = Holds v"
    using that by (simp add: readUserFile_def ensureUserDirectory_def)
qed

theorem readUserFile_defaults_witness:
  "mkdir_fault empty_disk ''u1'' = None \<and> files empty_disk (''u1'', ''tasks.json'') = Missing
   \<and> readUserFile 0 empty_disk ''u1'' ''tasks.json'' = Inr (TaskDoc [])
   \<and> mkdir_fault nodir_disk ''u1'' = Some ''ENOENT''
   \<and> readUserFile 0 nodir_disk ''u1'' ''aichat.json'' = Inr (ChatDoc [])
   \<and> ''EACCES'' \<noteq> ''ENOENT'' \<and> files locked_disk (''u1'', ''tasks.json'') = Unreadable ''EACCES''
   \<and> readUserFile 0 locked_disk ''u1'' ''tasks.json'' = Inl (SystemError ''EACCES'')
   \<and> ''notes.json'' \<notin> set objectPrototype
   \<and> getDefaultData 0 ''notes.json'' = JsonDoc (JObj [])
   \<and> files one_task_disk (''u1'', ''tasks.json'') = Holds (TaskDoc [task_a])
   \<and> readUserFile 0 one_task_disk ''u1'' ''tasks.json'' = Inr (TaskDoc [task_a])"
proof -
  have a1: "mkdir_fault empty_disk ''u1'' = None"
    and a2: "files empty_disk (''u1'', ''tasks.json'') = Missing"
    by (simp_all add: empty_disk_def)
  have n: "mkdir_fault nodir_disk ''u1'' = Some ''ENOENT''"
    by (simp add: nodir_disk_def empty_disk_def)
  have b1: "''EACCES'' \<noteq> ''ENOENT''"
    and b2: "mkdir_fault locked_disk ''u1'' = None"
    and b3: "files locked_disk (''u1'', ''tasks.json'') = Unreadable ''EACCES''"
    by (simp_all add: locked_disk_def empty_disk_def)
  have c1: "''notes.json'' \<notin> {''profile.json'', ''tasks.json'', ''aichat.json'', ''schedule.json'',
                     ''preferences.json'', ''analytics.json''}"
    and c2: "''notes.json'' \<notin> set objectPrototype"
    by (simp_all add: objectPrototype_def)
  have h1: "mkdir_fault one_task_disk ''u1'' = None"
    and h2: "files one_task_disk (''u1'', ''tasks.json'') = Holds (TaskDoc [task_a])"
    by (simp_all add: one_task_disk_def empty_disk_def)
  note th = readUserFile_defaults
  note t1 = th [of empty_disk "''u1''" "''tasks.json''" 0 "''EACCES''"]
  have "readUserFile 0 empty_disk ''u1'' ''tasks.json'' = Inr (getDefaultData 0 ''tasks.json'')"
    by (rule t1 [THEN conjunct1, THEN mp]) (intro disjI2 conjI disjI1 a1 a2)
  then have r1: "readUserFile 0 empty_disk ''u1'' ''tasks.json'' = Inr (TaskDoc [])"
    by (simp only: t1 [THEN conjunct2, THEN conjunct1])
  note t2 = th [of nodir_disk "''u1''" "''aichat.json''" 0 "''EACCES''"]
  have "readUserFile 0 nodir_disk ''u1'' ''aichat.json'' = Inr (getDefaultData 0 ''aichat.json'')"
    by (rule t2 [THEN conjunct1, THEN mp]) (intro disjI1 n)
  then have r2: "readUserFile 0 nodir_disk ''u1'' ''aichat.json'' = Inr (ChatDoc [])"
    by (simp only: t2 [THEN conjunct2, THEN conjunct2, THEN conjunct1])
  note t3 = th [of locked_disk "''u1''" "''tasks.json''" 0 "''EACCES''"]
  have r3: "readUserFile 0 locked_disk ''u1'' ''tasks.json'' = Inl (SystemError ''EACCES'')"
    by (rule t3 [THEN conjunct2, THEN conjunct2, THEN conjunct2, THEN conjunct2, THEN conjunct2,
                 THEN conjunct2, THEN conjunct2, THEN conjunct2, THEN conjunct2, THEN conjunct1,
                 THEN mp])
       (intro conjI b1 b2 b3)
  note t4 = th [of empty_disk "''u1''" "''notes.json''" 0 "''EACCES''"]
  have r4: "getDefaultData 0 ''notes.json'' = JsonDoc (JObj [])"
    by (rule t4 [THEN conjunct2, THEN conjunct2, THEN conjunct2, THEN conjunct2, THEN conjunct2,
                 THEN conjunct2, THEN conjunct2, THEN conjunct1, THEN mp])
       (intro conjI c1 c2)
  note t5 = th [of one_task_disk "''u1''" "''tasks.json''" 0 "''EACCES''" "TaskDoc [task_a]"]
  have r5: "readUserFile 0 one_task_disk ''u1'' ''tasks.json'' = Inr (TaskDoc [task_a])"
    by (rule t5 [THEN conjunct2, THEN conjunct2, THEN conjunct2, THEN conjunct2, THEN conjunct2,
                 THEN conjunct2, THEN conjunct2, THEN conjunct2, THEN conjunct2, THEN conjunct2,
                 THEN conjunct2, THEN mp])
       (intro conjI h1 h2)
  show ?thesis
    by (intro conjI a1 a2 r1 n r2 b1 b3 r3 c2 r4 h2 r5)
qed

text \<open>
  Not every failure of an underlying call is handed on: when making the user's
  directory fails with the code \<open>ENOENT\<close>, the read answers with the default
  document, here the empty task list, and the caller sees no error.
\<close>

theorem readUserFile_mkdir_counterexample:
  "ensureUserDirectory nodir_disk ''u1'' = Inl (SystemError ''ENOENT'')
   \<and> readUserFile 0 nodir_disk ''u1'' ''tasks.json'' = Inr (TaskDoc [])"
  by (simp add: readUserFile_def ensureUserDirectory_def read_catch_def getDefaultData_def
      nodir_disk_def empty_disk_def)

section \<open>Updating and deleting a task that is not there\<close>

lemma findIndex_None: "findIndex P xs = None \<longleftrightarrow> (\<forall>x \<in> set xs. \<not> P x)"
  by (induction xs) auto


text \<open>
  C9. For every user, stored task list and task id that no task of the list
  carries, both the update and the delete operation answer "not found" and leave
  the disk, and with it the stored task list, as it was.
\<close>

theorem missing_task_not_found:
  assumes "readUserFile (now e) d userId ''tasks.json'' = Inr (TaskDoc tasks)"
    and "taskId \<notin> id_task ` set tasks"
  shows "put_task e d userId taskId updates = (Inl NotFound, d)
         \<and> delete_task e d userId taskId = (Inl NotFound, d)"
proof
  have "findIndex (\<lambda>t. id_task t = taskId) tasks = None"
    using assms(2) by (auto simp: findIndex_None)
  with assms(1) show "put_task e d userId taskId updates = (Inl NotFound, d)"
    by (simp add: put_task_def)
  have "filter (\<lambda>t. id_task t \<noteq> taskId) tasks = tasks"
    using assms(2) by (auto simp: filter_id_conv)
  with assms(1) show "delete_task e d userId taskId = (Inl NotFound, d)"
    by (simp add: delete_task_def)
qed

theorem missing_task_not_found_witness:
  "readUserFile (now env0) one_task_disk ''u1'' ''tasks.json'' = Inr (TaskDoc [task_a])
   \<and> ''zz'' \<notin> id_task ` set [task_a]
   \<and> put_task env0 one_task_disk ''u1'' ''zz'' (toggle_updates 5 task_a) = (Inl NotFound, one_task_disk)
   \<and> delete_task env0 one_task_disk ''u1'' ''zz'' = (Inl NotFound, one_task_disk)"
proof -
  have r: "readUserFile (now env0) one_task_disk ''u1'' ''tasks.json'' = Inr (TaskDoc [task_a])"
    by (simp add: readUserFile_def ensureUserDirectory_def one_task_disk_def empty_disk_def)
  have n: "''zz'' \<notin> id_task ` set [task_a]"
    by (simp add: task_a_def only_id_def)
  from missing_task_not_found [OF r n] r n show ?thesis by simp
qed

section \<open>What the task routes do to the disk\<close>

lemma readUserFile_TaskDoc:
  assumes "readUserFile c d u ''tasks.json'' = Inr (TaskDoc ts)" and "mkdir_fault d u = None"
  shows "stored_tasks d u = ts"
  using assms
  by (cases "files d (u, ''tasks.json'')")
     (auto simp: readUserFile_def ensureUserDirectory_def read_catch_def stored_tasks_def
        getDefaultData_def split: if_splits)

lemma readUserFile_ok:
  assumes "mkdir_fault d u = None"
    and "files d (u, ''tasks.json'') = Missing \<or> (\<exists>ts. files d (u, ''tasks.json'') = Holds (TaskDoc ts))"
  shows "readUserFile c d u ''tasks.json'' = Inr (TaskDoc (stored_tasks d u))"
  using assms
  by (auto simp: readUserFile_def ensureUserDirectory_def read_catch_def stored_tasks_def
        getDefaultData_def)

lemma writeUserFile_Inr:
  "writeUserFile d u f v = (Inr b, d') \<Longrightarrow>
     mkdir_fault d u = None \<and> write_fault d (u, f) = None
     \<and> d' = d \<lparr> files := (files d) ((u, f) := Holds v) \<rparr>"
  by (auto simp: writeUserFile_def ensureUserDirectory_def split: option.splits)


lemma writeUserFile_ok:
  "mkdir_fault d u = None \<Longrightarrow> write_fault d (u, f) = None \<Longrightarrow>
     writeUserFile d u f v = (Inr True, d \<lparr> files := (files d) ((u, f) := Holds v) \<rparr>)"
  by (simp add: writeUserFile_def ensureUserDirectory_def)

lemma calculateAnalytics_effect:
  "calculateAnalytics e d u = d
   \<or> (\<exists>v. calculateAnalytics e d u = d \<lparr> files := (files d) ((u, ''analytics.json'') := Holds v) \<rparr>)"
proof -
  have w: "snd (writeUserFile d u ''analytics.json'' v) = d
      \<or> snd (writeUserFile d u ''analytics.json'' v)
          = d \<lparr> files := (files d) ((u, ''analytics.json'') := Holds v) \<rparr>" for v
    by (simp add: writeUserFile_def ensureUserDirectory_def split: option.splits)
  show ?thesis
    unfolding calculateAnalytics_def
    using w by (auto split: sum.splits doc.splits)
qed

lemma stored_tasks_calculateAnalytics:
  "stored_tasks (calculateAnalytics e d u) u' = stored_tasks d u'"
  using calculateAnalytics_effect [of e d u] by (auto simp: stored_tasks_def)



lemma stored_tasks_written:
  "stored_tasks (d \<lparr> files := (files d) ((u, ''tasks.json'') := Holds (TaskDoc ts)) \<rparr>) u = ts"
  by (simp add: stored_tasks_def)

lemma post_task_Inr:
  assumes "post_task e d u p = (Inr t, d')"
  shows "t = (assign (only_id (uuid e)) p) \<lparr> completed := Boolean False, createdAt := Some (now e) \<rparr>
         \<and> stored_tasks d' u = stored_tasks d u @ [t]"
proof -
  from assms obtain ts where r: "readUserFile (now e) d u ''tasks.json'' = Inr (TaskDoc ts)"
    by (auto simp: post_task_def split: sum.splits doc.splits)
  let ?t = "(assign (only_id (uuid e)) p) \<lparr> completed := Boolean False, createdAt := Some (now e) \<rparr>"
  obtain res d1 where w: "writeUserFile d u ''tasks.json'' (TaskDoc (ts @ [?t])) = (res, d1)"
    by (cases "writeUserFile d u ''tasks.json'' (TaskDoc (ts @ [?t]))") auto
  from assms r w obtain b where res: "res = Inr b" and t: "t = ?t" and d': "d' = calculateAnalytics e d1 u"
    by (cases res) (auto simp: post_task_def Let_def)
  from writeUserFile_Inr [OF w [unfolded res]]
  have mk: "mkdir_fault d u = None"
    and d1: "d1 = d \<lparr> files := (files d) ((u, ''tasks.json'') := Holds (TaskDoc (ts @ [?t]))) \<rparr>"
    by auto
  from readUserFile_TaskDoc [OF r mk] have "stored_tasks d u = ts" .
  then show ?thesis
    by (simp add: t d' d1 stored_tasks_calculateAnalytics stored_tasks_written)
qed


lemma post_task_ok:
  assumes "task_store_ok d u"
  shows "\<exists>t d'. post_task e d u p = (Inr t, d')"
proof -
  from assms have r: "readUserFile (now e) d u ''tasks.json'' = Inr (TaskDoc (stored_tasks d u))"
    by (intro readUserFile_ok) (auto simp: task_store_ok_def)
  from assms have "mkdir_fault d u = None" "write_fault d (u, ''tasks.json'') = None"
    by (auto simp: task_store_ok_def)
  then show ?thesis
    by (simp add: post_task_def r writeUserFile_ok Let_def)
qed

text \<open>
  C10. For every create request, the task the create operation returns and stores
  at the end of the user's task list has \<open>completed\<close> false and \<open>createdAt\<close> set to
  the server's clock reading, whatever the request body says about these two
  properties; and the operation does succeed whenever the task file can be served
  without fault.
\<close>

theorem post_task_overrides:
  "(\<forall>t d'. post_task e d userId taskData = (Inr t, d')
        \<longrightarrow> completed t = Boolean False \<and> createdAt t = Some (now e)
            \<and> stored_tasks d' userId = stored_tasks d userId @ [t])
   \<and> (task_store_ok d userId \<longrightarrow> (\<exists>t d'. post_task e d userId taskData = (Inr t, d')))"
proof (intro conjI allI impI)
  fix t d'
  assume a: "post_task e d userId taskData = (Inr t, d')"
  from post_task_Inr [OF a] show "completed t = Boolean False" by simp
  from post_task_Inr [OF a] show "createdAt t = Some (now e)" by simp
  from post_task_Inr [OF a] show "stored_tasks d' userId = stored_tasks d userId @ [t]" by simp
next
  assume "task_store_ok d userId"
  then show "\<exists>t d'. post_task e d userId taskData = (Inr t, d')"
    by (rule post_task_ok)
qed

theorem post_task_overrides_witness:
  "task_store_ok empty_disk ''u1''
   \<and> p_completed pushy_body = Some (Boolean True) \<and> p_createdAt pushy_body = Some (Some 42)
   \<and> (\<exists>t d'. post_task env0 empty_disk ''u1'' pushy_body = (Inr t, d')
          \<and> completed t = Boolean False \<and> createdAt t = Some 1000 \<and> stored_tasks d' ''u1'' = [t])"
proof -
  have ok: "task_store_ok empty_disk ''u1''"
    by (simp add: task_store_ok_def empty_disk_def)
  have body: "p_completed pushy_body = Some (Boolean True) \<and> p_createdAt pushy_body = Some (Some 42)"
    by (simp add: pushy_body_def no_updates_def)
  have empty: "stored_tasks empty_disk ''u1'' = []"
    by (simp add: stored_tasks_def empty_disk_def)
  note th = post_task_overrides [of env0 empty_disk "''u1''" pushy_body]
  from th ok obtain t d' where p: "post_task env0 empty_disk ''u1'' pushy_body = (Inr t, d')"
    by blast
  with th have "completed t = Boolean False \<and> createdAt t = Some (now env0)
      \<and> stored_tasks d' ''u1'' = stored_tasks empty_disk ''u1'' @ [t]"
    by blast
  with p ok body empty show ?thesis
    by (auto simp: env0_def)
qed

section \<open>The chat log\<close>

lemma readUserFile_ChatDoc:
  assumes "readUserFile c d u ''aichat.json'' = Inr (ChatDoc cs)" and "mkdir_fault d u = None"
  shows "stored_chats d u = cs"
  using assms
  by (cases "files d (u, ''aichat.json'')")
     (auto simp: readUserFile_def ensureUserDirectory_def read_catch_def stored_chats_def
        getDefaultData_def split: if_splits)

lemma readUserFile_chat_ok:
  assumes "mkdir_fault d u = None"
    and "files d (u, ''aichat.json'') = Missing \<or> (\<exists>cs. files d (u, ''aichat.json'') = Holds (ChatDoc cs))"
  shows "readUserFile c d u ''aichat.json'' = Inr (ChatDoc (stored_chats d u))"
  using assms
  by (auto simp: readUserFile_def ensureUserDirectory_def read_catch_def stored_chats_def
        getDefaultData_def)

lemma stored_chats_written:
  "stored_chats (d \<lparr> files := (files d) ((u, ''aichat.json'') := Holds (ChatDoc cs)) \<rparr>) u = cs"
  by (simp add: stored_chats_def)

lemma post_ai_chat_alt:
  "post_ai_chat e allowed d u msg resp =
     (if \<not> allowed then (Inl TooManyRequests, d)
      else
        case readUserFile (now e) d u ''aichat.json'' of
          Inr (ChatDoc cs) \<Rightarrow>
            (case writeUserFile d u ''aichat.json''
                    (ChatDoc (drop (length (cs @ [chat_entry (e, msg, resp)]) - 100)
                                (cs @ [chat_entry (e, msg, resp)]))) of
               (Inl _, d') \<Rightarrow> (Inl InternalError, d')
             | (Inr _, d') \<Rightarrow> (Inr (chat_entry (e, msg, resp)), d'))
        | _ \<Rightarrow> (Inl InternalError, d))"
proof -
  have k: "(if 100 < length xs then drop (length xs - 100) xs else xs) = drop (length xs - 100) xs"
    for xs :: "chat list"
    by simp
  show ?thesis
    by (simp only: post_ai_chat_def Let_def chat_entry_def k prod.case)
qed

lemma post_ai_chat_Inr:
  assumes "post_ai_chat e allowed d u msg resp = (Inr c, d')"
  shows "c = chat_entry (e, msg, resp)
         \<and> stored_chats d' u = drop (length (stored_chats d u @ [c]) - 100) (stored_chats d u @ [c])"
proof -
  from assms have al: allowed
    by (auto simp: post_ai_chat_alt split: if_splits)
  from assms al obtain cs where r: "readUserFile (now e) d u ''aichat.json'' = Inr (ChatDoc cs)"
    by (auto simp: post_ai_chat_alt split: sum.splits doc.splits)
  let ?c = "chat_entry (e, msg, resp)"
  let ?kept = "drop (length (cs @ [?c]) - 100) (cs @ [?c])"
  obtain res d1 where w: "writeUserFile d u ''aichat.json'' (ChatDoc ?kept) = (res, d1)"
    by (cases "writeUserFile d u ''aichat.json'' (ChatDoc ?kept)") auto
  have "post_ai_chat e allowed d u msg resp
        = (case (res, d1) of (Inl _, d') \<Rightarrow> (Inl InternalError, d')
                           | (Inr _, d') \<Rightarrow> (Inr ?c, d'))"
    by (simp only: post_ai_chat_alt al r w not_True_eq_False if_False sum.case doc.case)
  with assms obtain b where res: "res = Inr b" and c: "c = ?c" and d': "d' = d1"
    by (cases res) auto
  from writeUserFile_Inr [OF w [unfolded res]]
  have mk: "mkdir_fault d u = None"
    and d1: "d1 = d \<lparr> files := (files d) ((u, ''aichat.json'') := Holds (ChatDoc ?kept)) \<rparr>"
    by auto
  from readUserFile_ChatDoc [OF r mk] have cs: "stored_chats d u = cs" .
  have "stored_chats d' u = ?kept"
    unfolding d' d1 by (rule stored_chats_written)
  then show ?thesis
    unfolding cs c by simp
qed

lemma post_ai_chat_ok:
  assumes "chat_store_ok d u"
  shows "post_ai_chat e True d u msg resp
         = (Inr (chat_entry (e, msg, resp)),
            d \<lparr> files := (files d) ((u, ''aichat.json'') :=
                   Holds (ChatDoc (drop (length (stored_chats d u @ [chat_entry (e, msg, resp)]) - 100)
                                     (stored_chats d u @ [chat_entry (e, msg, resp)])))) \<rparr>)"
proof -
  from assms have r: "readUserFile (now e) d u ''aichat.json'' = Inr (ChatDoc (stored_chats d u))"
    by (intro readUserFile_chat_ok) (auto simp: chat_store_ok_def)
  from assms have f: "mkdir_fault d u = None" "write_fault d (u, ''aichat.json'') = None"
    by (auto simp: chat_store_ok_def)
  show ?thesis
    by (simp only: post_ai_chat_alt r writeUserFile_ok [OF f] not_True_eq_False if_False
        sum.case doc.case prod.case)
qed

lemma chat_store_ok_written:
  "chat_store_ok d u \<Longrightarrow>
     chat_store_ok (d \<lparr> files := (files d) ((u, ''aichat.json'') := Holds (ChatDoc cs)) \<rparr>) u"
  by (simp add: chat_store_ok_def)

lemma keep_last_append:
  "drop (length (drop (length xs - n) xs @ ys) - n) (drop (length xs - n) xs @ ys)
   = drop (length (xs @ ys) - n) (xs @ ys)"
  by (cases "length xs \<le> n") (simp_all add: min_def add.commute)

lemma post_ai_chats_log:
  assumes "chat_store_ok d u" and "reqs \<noteq> []"
  shows "stored_chats (post_ai_chats d u reqs) u
         = drop (length (stored_chats d u @ map chat_entry reqs) - 100)
             (stored_chats d u @ map chat_entry reqs)"
  using assms
proof (induction reqs arbitrary: d)
  case Nil
  then show ?case by simp
next
  case (Cons rq rest)
  obtain e msg resp where rq: "rq = (e, msg, resp)" by (cases rq) auto
  let ?c = "chat_entry (e, msg, resp)"
  let ?kept = "drop (length (stored_chats d u @ [?c]) - 100) (stored_chats d u @ [?c])"
  let ?d1 = "d \<lparr> files := (files d) ((u, ''aichat.json'') := Holds (ChatDoc ?kept)) \<rparr>"
  have step: "snd (post_ai_chat e True d u msg resp) = ?d1"
    using post_ai_chat_ok [OF Cons.prems(1), of e msg resp] by simp
  have ok1: "chat_store_ok ?d1 u"
    using Cons.prems(1) by (rule chat_store_ok_written)
  have st1: "stored_chats ?d1 u = ?kept"
    by (rule stored_chats_written)
  have unfold: "post_ai_chats d u (rq # rest) = post_ai_chats ?d1 u rest"
    by (simp only: rq post_ai_chats.simps step)
  show ?case
  proof (cases rest)
    case Nil
    have "stored_chats (post_ai_chats d u (rq # rest)) u = stored_chats ?d1 u"
      unfolding unfold by (simp only: Nil post_ai_chats.simps)
    also have "\<dots> = ?kept" by (rule st1)
    also have "\<dots> = drop (length (stored_chats d u @ map chat_entry (rq # rest)) - 100)
                       (stored_chats d u @ map chat_entry (rq # rest))"
      by (simp only: Nil rq list.map)
    finally show ?thesis .
  next
    case (Cons r2 rest2)
    then have "rest \<noteq> []" by simp
    from Cons.IH [OF ok1 this]
    have "stored_chats (post_ai_chats ?d1 u rest) u
          = drop (length (?kept @ map chat_entry rest) - 100) (?kept @ map chat_entry rest)"
      by (simp only: st1)
    also have "\<dots> = drop (length ((stored_chats d u @ [?c]) @ map chat_entry rest) - 100)
                       ((stored_chats d u @ [?c]) @ map chat_entry rest)"
      by (rule keep_last_append)
    also have "\<dots> = drop (length (stored_chats d u @ map chat_entry (rq # rest)) - 100)
                       (stored_chats d u @ map chat_entry (rq # rest))"
      by (simp only: rq list.map append_assoc append_Cons append_Nil)
    finally show ?thesis
      by (simp only: unfold)
  qed
qed

text \<open>
  C8. For every user and every run of chat appends, the stored chat log holds at
  most 100 entries after each append, and what is kept are the most recent 100
  entries in their original order: the oldest entries go first.
\<close>

theorem chat_log_capped:
  "(\<forall>c d'. post_ai_chat e allowed d userId msg resp = (Inr c, d')
        \<longrightarrow> c = chat_entry (e, msg, resp)
            \<and> stored_chats d' userId
                = drop (length (stored_chats d userId @ [c]) - 100) (stored_chats d userId @ [c])
            \<and> length (stored_chats d' userId) \<le> 100)
   \<and> (chat_store_ok d userId \<and> reqs \<noteq> []
        \<longrightarrow> stored_chats (post_ai_chats d userId reqs) userId
              = drop (length (stored_chats d userId @ map chat_entry reqs) - 100)
                  (stored_chats d userId @ map chat_entry reqs)
            \<and> length (stored_chats (post_ai_chats d userId reqs) userId) \<le> 100)"
proof (intro conjI allI impI)
  fix c d'
  assume a: "post_ai_chat e allowed d userId msg resp = (Inr c, d')"
  from post_ai_chat_Inr [OF a] show "c = chat_entry (e, msg, resp)" by simp
  from post_ai_chat_Inr [OF a]
  show st: "stored_chats d' userId
        = drop (length (stored_chats d userId @ [c]) - 100) (stored_chats d userId @ [c])"
    by simp
  show "length (stored_chats d' userId) \<le> 100"
    unfolding st by simp
next
  assume a: "chat_store_ok d userId \<and> reqs \<noteq> []"
  then show st: "stored_chats (post_ai_chats d userId reqs) userId
        = drop (length (stored_chats d userId @ map chat_entry reqs) - 100)
            (stored_chats d userId @ map chat_entry reqs)"
    by (simp add: post_ai_chats_log)
  show "length (stored_chats (post_ai_chats d userId reqs) userId) \<le> 100"
    unfolding st by simp
qed

theorem chat_log_capped_witness:
  "chat_store_ok full_chat_disk ''u1'' \<and> [(env0, Some ''q'', Some ''a'')] \<noteq> []
   \<and> stored_chats full_chat_disk ''u1'' = replicate 100 old_chat
   \<and> stored_chats (post_ai_chats full_chat_disk ''u1'' [(env0, Some ''q'', Some ''a'')]) ''u1''
       = replicate 99 old_chat @ [chat_entry (env0, Some ''q'', Some ''a'')]"
proof -
  have ok: "chat_store_ok full_chat_disk ''u1''"
    by (simp add: chat_store_ok_def full_chat_disk_def empty_disk_def)
  have st: "stored_chats full_chat_disk ''u1'' = replicate 100 old_chat"
    by (simp add: stored_chats_def full_chat_disk_def)
  have "stored_chats (post_ai_chats full_chat_disk ''u1'' [(env0, Some ''q'', Some ''a'')]) ''u1''
        = drop (length (stored_chats full_chat_disk ''u1'' @ map chat_entry [(env0, Some ''q'', Some ''a'')]) - 100)
            (stored_chats full_chat_disk ''u1'' @ map chat_entry [(env0, Some ''q'', Some ''a'')])"
    using chat_log_capped [of env0 True full_chat_disk "''u1''" "Some ''q''" "Some ''a''"
        "[(env0, Some ''q'', Some ''a'')]"] ok
    by blast
  also have "\<dots> = replicate 99 old_chat @ [chat_entry (env0, Some ''q'', Some ''a'')]"
    by (simp add: st)
  finally show ?thesis
    using ok st by simp
qed

section \<open>Completion and its time stamp\<close>



















section \<open>The daily chat limit\<close>

text \<open>
  As long as the list is only added to, the limit works as announced: an attempt
  made when ten entries of today are listed is turned down before the responder is
  called, and of any number of attempts in a row on one day exactly the first ten
  (counting the entries already there) go through.
\<close>

lemma isDailyLimitReached_count:
  "isDailyLimitReached tz clock m \<longleftrightarrow> 10 \<le> today_count tz clock m"
  by (simp add: isDailyLimitReached_def today_count_def Let_def)

lemma sendMessage_at_limit:
  "trim input \<noteq> [] \<Longrightarrow> 10 \<le> today_count tz clock m \<Longrightarrow>
     sendMessage tz clock respond saved input m = (LimitReached, m)"
  by (simp add: sendMessage_def isDailyLimitReached_count Let_def)

lemma sendMessage_below_limit:
  assumes "trim input \<noteq> []" and "today_count tz clock m < 10"
  shows "fst (sendMessage tz clock respond True input m) = Sent
         \<and> responder_calls (snd (sendMessage tz clock respond True input m)) = Suc (responder_calls m)
         \<and> today_count tz clock (snd (sendMessage tz clock respond True input m))
             = Suc (today_count tz clock m)"
  using assms
  by (simp add: sendMessage_def isDailyLimitReached_count Let_def today_count_def)

lemma send_repeatedly_counts:
  assumes "trim input \<noteq> []" and "today_count tz clock m \<le> 10"
  shows "today_count tz clock (send_repeatedly n tz clock respond input m)
           = min 10 (today_count tz clock m + n)
         \<and> responder_calls (send_repeatedly n tz clock respond input m) + today_count tz clock m
           = responder_calls m + min 10 (today_count tz clock m + n)"
  using assms(2)
proof (induction n arbitrary: m)
  case 0
  then show ?case by simp
next
  case (Suc n)
  show ?case
  proof (cases "today_count tz clock m < 10")
    case True
    let ?m1 = "snd (sendMessage tz clock respond True input m)"
    from sendMessage_below_limit [OF assms(1) True, of respond]
    have c: "today_count tz clock ?m1 = Suc (today_count tz clock m)"
      and r: "responder_calls ?m1 = Suc (responder_calls m)"
      by simp_all
    with True have "today_count tz clock ?m1 \<le> 10" by simp
    from Suc.IH [OF this] c r True show ?thesis
      by simp
  next
    case False
    with Suc.prems have ten: "today_count tz clock m = 10" by simp
    then have "snd (sendMessage tz clock respond True input m) = m"
      using sendMessage_at_limit [OF assms(1), of tz clock m respond True] by simp
    with Suc.IH [OF Suc.prems] ten show ?thesis
      by simp
  qed
qed

lemma trim_hi: "trim ''hi'' \<noteq> []"
  by (simp add: trim_def isSpace_def)

text \<open>
  C3. At most ten chat exchanges a day are to be accepted, every further attempt
  of the day being turned down without a call to the responder. The eleventh
  attempt after ten exchanges is turned down; but once the chat history has been
  cleared, the eleventh attempt of the same day goes through and the responder is
  called for the eleventh time.
\<close>

theorem clearing_chat_resets_daily_limit:
  "fst (sendMessage 0 1000 echo True ''hi'' (send_repeatedly 10 0 1000 echo ''hi'' new_manager))
     = LimitReached
   \<and> fst (sendMessage 0 1000 echo True ''hi''
            (clearChat True True (send_repeatedly 10 0 1000 echo ''hi'' new_manager))) = Sent
   \<and> responder_calls (snd (sendMessage 0 1000 echo True ''hi''
            (clearChat True True (send_repeatedly 10 0 1000 echo ''hi'' new_manager)))) = 11"
proof -
  let ?m10 = "send_repeatedly 10 0 1000 echo ''hi'' new_manager"
  have z: "today_count 0 1000 new_manager = 0" "responder_calls new_manager = 0"
    by (simp_all add: today_count_def new_manager_def)
  from send_repeatedly_counts [OF trim_hi, of 0 1000 new_manager 10 echo] z
  have c10: "today_count 0 1000 ?m10 = 10" and r10: "responder_calls ?m10 = 10"
    by simp_all
  have first: "fst (sendMessage 0 1000 echo True ''hi'' ?m10) = LimitReached"
    using sendMessage_at_limit [OF trim_hi, of 0 1000 ?m10 echo True] c10 by simp
  let ?mc = "clearChat True True ?m10"
  have cc: "today_count 0 1000 ?mc = 0" and rc: "responder_calls ?mc = 10"
    by (simp_all add: clearChat_def today_count_def r10)
  from sendMessage_below_limit [OF trim_hi, of 0 1000 ?mc echo] cc rc first
  show ?thesis by simp
qed

end
